theory Spec2Isabelle
  imports Main "HOL-Library.AList"
begin

section \<open>Python values shared by all components\<close>

text \<open>
  Block identifiers are Python integers. A Python \<open>set\<close> is modelled by the list of
  its elements in iteration order; only the elements matter to the results proved below.
  Exceptions are values: every function that can raise returns \<open>error + 'a\<close>, and a loop
  that is cut off by its fuel returns \<open>OutOfFuel\<close>.
\<close>

type_synonym gid = int

datatype error = KeyError | NetworkXError | IndexError | ValueError | OutOfFuel

abbreviation bindE :: "error + 'a \<Rightarrow> ('a \<Rightarrow> error + 'b) \<Rightarrow> error + 'b" where
  "bindE m f \<equiv> (case m of Inl e \<Rightarrow> Inl e | Inr x \<Rightarrow> f x)"

definition set_ior :: "'a list \<Rightarrow> 'a list \<Rightarrow> 'a list" where
  \<comment> \<open>\<open>a |= b\<close> on Python sets\<close>
  "set_ior xs ys = xs @ filter (\<lambda>y. y \<notin> set xs) (remdups ys)"

definition set_isub :: "'a list \<Rightarrow> 'a list \<Rightarrow> 'a list" where
  \<comment> \<open>\<open>a -= b\<close> on Python sets\<close>
  "set_isub xs ys = filter (\<lambda>x. x \<notin> set ys) xs"

section \<open>LazySet (lazy\_set.py)\<close>

text \<open>
  A LazySet keeps references to the set objects it was given, and \<open>flatten\<close> with
  \<open>modify=True\<close> writes into the first positive one. The set objects therefore live in
  a heap, a list of cells addressed by position; a layer is the address of its set object.
\<close>

type_synonym addr = nat

type_synonym 'a heap = "'a list list"

definition cells :: "'a heap \<Rightarrow> addr \<Rightarrow> 'a list" where
  "cells h a = h ! a"

definition next_free :: "'a heap \<Rightarrow> addr" where
  "next_free h = length h"

definition alloc :: "'a heap \<Rightarrow> 'a list \<Rightarrow> addr \<times> 'a heap" where
  "alloc h v = (next_free h, h @ [v])"

definition store :: "'a heap \<Rightarrow> addr \<Rightarrow> 'a list \<Rightarrow> 'a heap" where
  "store h a v = h[a := v]"

record lazy_set =
  sets :: "addr list"
  positive_indices :: "nat set"

definition LazySet_new :: lazy_set where
  \<comment> \<open>the first two statements of \<open>__init__\<close>\<close>
  "LazySet_new = \<lparr>sets = [], positive_indices = {}\<rparr>"

definition lazy_update :: "'a heap \<Rightarrow> lazy_set \<Rightarrow> addr \<Rightarrow> lazy_set" where
  "lazy_update h L other =
     (if cells h other \<noteq> []
      then L\<lparr>positive_indices := insert (length (sets L)) (positive_indices L),
              sets := sets L @ [other]\<rparr>
      else L)"

definition lazy_difference_update :: "'a heap \<Rightarrow> lazy_set \<Rightarrow> addr \<Rightarrow> lazy_set" where
  "lazy_difference_update h L other =
     (if cells h other \<noteq> [] then L\<lparr>sets := sets L @ [other]\<rparr> else L)"

definition clear :: "lazy_set \<Rightarrow> lazy_set" where
  "clear L = L\<lparr>sets := [], positive_indices := {}\<rparr>"

text \<open>\<open>__contains__\<close>: the loop over \<open>enumerate(reversed(self._sets))\<close>.\<close>

fun contains_loop :: "'a heap \<Rightarrow> nat set \<Rightarrow> nat \<Rightarrow> 'a \<Rightarrow> (nat \<times> addr) list \<Rightarrow> bool" where
  "contains_loop h pos number_of_sets item [] = False"
| "contains_loop h pos number_of_sets item ((index, cur_set) # rest) =
     (if item \<in> set (cells h cur_set) then (number_of_sets - index - 1) \<in> pos
      else contains_loop h pos number_of_sets item rest)"

definition contains :: "'a heap \<Rightarrow> lazy_set \<Rightarrow> 'a \<Rightarrow> bool" where
  "contains h L item =
     contains_loop h (positive_indices L) (length (sets L)) item (enumerate 0 (rev (sets L)))"

text \<open>\<open>__iter__\<close>: the inner loop over one positive layer, then the loop over the layers.
  The result is the list of yielded items, in order.\<close>

fun iter_layer :: "'a set \<Rightarrow> 'a list \<Rightarrow> 'a set \<times> 'a list" where
  "iter_layer do_not_yield [] = (do_not_yield, [])"
| "iter_layer do_not_yield (item # items) =
     (if item \<notin> do_not_yield
      then (case iter_layer (insert item do_not_yield) items of (d, ys) \<Rightarrow> (d, item # ys))
      else iter_layer do_not_yield items)"

fun iter_loop :: "'a heap \<Rightarrow> nat set \<Rightarrow> nat \<Rightarrow> 'a set \<Rightarrow> (nat \<times> addr) list \<Rightarrow> 'a list" where
  "iter_loop h pos number_of_sets do_not_yield [] = []"
| "iter_loop h pos number_of_sets do_not_yield ((index, cur_set) # rest) =
     (if (number_of_sets - index - 1) \<notin> pos
      then iter_loop h pos number_of_sets (do_not_yield \<union> set (cells h cur_set)) rest
      else (case iter_layer do_not_yield (cells h cur_set) of
              (d, ys) \<Rightarrow> ys @ iter_loop h pos number_of_sets d rest))"

definition iter :: "'a heap \<Rightarrow> lazy_set \<Rightarrow> 'a list" where
  "iter h L = iter_loop h (positive_indices L) (length (sets L)) {} (enumerate 0 (rev (sets L)))"

definition len :: "'a heap \<Rightarrow> lazy_set \<Rightarrow> nat" where
  "len h L = length (iter h L)"

text \<open>\<open>flatten_to_set\<close>: the search for the first positive layer, the \<open>while\<close> loop that
  folds the later layers into the base set object, and the final \<open>clear\<close> and
  \<open>lazy_update\<close>. The result is the new heap, the new LazySet and the address of the
  returned set.\<close>

definition base_set_index :: "lazy_set \<Rightarrow> nat option" where
  "base_set_index L = List.find (\<lambda>index. index \<in> positive_indices L) [0..<length (sets L)]"

fun flatten_loop :: "nat set \<Rightarrow> addr \<Rightarrow> 'a heap \<Rightarrow> (nat \<times> addr) list \<Rightarrow> 'a heap" where
  "flatten_loop pos base_set h [] = h"
| "flatten_loop pos base_set h ((index, cur_set) # rest) =
     flatten_loop pos base_set
       (store h base_set
          (if index \<in> pos then set_ior (cells h base_set) (cells h cur_set)
           else set_isub (cells h base_set) (cells h cur_set)))
       rest"

definition flatten_to_set :: "'a heap \<Rightarrow> lazy_set \<Rightarrow> bool \<Rightarrow> 'a heap \<times> lazy_set \<times> addr" where
  "flatten_to_set h L modify =
     (case base_set_index L of
        None \<Rightarrow> (case alloc h [] of (r, h') \<Rightarrow> (h', L, r))
      | Some i \<Rightarrow>
          (case (if modify then (sets L ! i, h) else alloc h (cells h (sets L ! i))) of
             (base_set, h1) \<Rightarrow>
               (let h2 = flatten_loop (positive_indices L) base_set h1
                           (drop (Suc i) (enumerate 0 (sets L)))
                in (h2, lazy_update h2 (clear L) base_set, base_set))))"

definition flatten :: "'a heap \<Rightarrow> lazy_set \<Rightarrow> bool \<Rightarrow> 'a heap \<times> lazy_set" where
  "flatten h L modify = (case flatten_to_set h L modify of (h', L', r) \<Rightarrow> (h', L'))"

text \<open>
  The reference evaluation of the specification: the layers applied in list order to
  the empty set, a positive layer by union and a negative layer by difference.
\<close>

fun reference_loop :: "'a heap \<Rightarrow> nat set \<Rightarrow> 'a set \<Rightarrow> (nat \<times> addr) list \<Rightarrow> 'a set" where
  "reference_loop h pos acc [] = acc"
| "reference_loop h pos acc ((index, cur_set) # rest) =
     reference_loop h pos
       (if index \<in> pos then acc \<union> set (cells h cur_set) else acc - set (cells h cur_set)) rest"

definition reference_set :: "'a heap \<Rightarrow> lazy_set \<Rightarrow> 'a set" where
  "reference_set h L = reference_loop h (positive_indices L) {} (enumerate 0 (sets L))"

definition heap_ok :: "'a heap \<Rightarrow> lazy_set \<Rightarrow> bool" where
  \<comment> \<open>every layer is an allocated set object\<close>
  "heap_ok h L = (\<forall>a \<in> set (sets L). a < next_free h)"

text \<open>
  \<open>flatten\<close> with \<open>modify=True\<close> writes into the set object of the first positive layer
  while it still reads the later layers; the predicate says that none of the later layers
  is that same object.
\<close>

definition first_positive_unshared :: "lazy_set \<Rightarrow> bool" where
  "first_positive_unshared L =
     (case base_set_index L of
        None \<Rightarrow> True
      | Some i \<Rightarrow> sets L ! i \<notin> set (drop (Suc i) (sets L)))"

text \<open>Concrete LazySets used to run the operations.\<close>

definition example_heap :: "int heap" where
  "example_heap = [[1, 2, 3], [2, 3], [3, 4]]"

definition example_lazy_set :: lazy_set where
  "example_lazy_set =
     lazy_update example_heap
       (lazy_difference_update example_heap (lazy_update example_heap LazySet_new 0) 1) 2"

definition cancelling_lazy_set :: lazy_set where
  "cancelling_lazy_set =
     lazy_difference_update example_heap (lazy_update example_heap LazySet_new 1) 0"

definition shared_heap :: "int heap" where
  "shared_heap = [[1, 2], [1]]"

definition shared_lazy_set :: lazy_set where
  "shared_lazy_set =
     lazy_update shared_heap
       (lazy_difference_update shared_heap (lazy_update shared_heap LazySet_new 0) 1) 0"

definition negative_only_lazy_set :: lazy_set where
  "negative_only_lazy_set = lazy_difference_update example_heap LazySet_new 0"

text \<open>
  The constructor \<open>LazySet(base_set, negative_sets, positive_sets)\<close>, for sets given by
  value: each becomes a set object of the heap.
\<close>

fun alloc_all :: "'a heap \<Rightarrow> 'a list list \<Rightarrow> addr list \<times> 'a heap" where
  "alloc_all h [] = ([], h)"
| "alloc_all h (v # vs) =
     (case alloc h v of (a, h1) \<Rightarrow> (case alloc_all h1 vs of (as, h2) \<Rightarrow> (a # as, h2)))"

definition LazySet_init :: "'a heap \<Rightarrow> 'a list \<Rightarrow> 'a list list \<Rightarrow> 'a list list \<Rightarrow> 'a heap \<times> lazy_set" where
  "LazySet_init h base_set negative_sets positive_sets =
     (case alloc h base_set of (b, h1) \<Rightarrow>
      case alloc_all h1 negative_sets of (ns, h2) \<Rightarrow>
      case alloc_all h2 positive_sets of (ps, h3) \<Rightarrow>
        (h3, foldl (lazy_update h3)
               (foldl (lazy_difference_update h3) (lazy_update h3 LazySet_new b) ns) ps))"

section \<open>Blocks and the networkx digraph\<close>

text \<open>
  A block carries its global id (its hash) and the set of its parents' global ids; its
  size and payload take no part in any operation modelled here.
\<close>

record block =
  block_gid :: gid
  block_parents :: "gid list"

definition get_parents :: "block \<Rightarrow> gid list" where
  "get_parents b = block_parents b"

definition hash :: "block \<Rightarrow> gid" where
  "hash b = block_gid b"

text \<open>
  The part of \<open>networkx.DiGraph\<close> that the code uses. The graph keeps three
  insertion-ordered dictionaries: the attribute dictionary of every node, the successors
  of every node and the predecessors of every node. An edge points from a block to one
  of its parents, so the successors of a block are its parents and its predecessors are
  its children.
\<close>

record 'n digraph =
  node_attrs :: "(gid \<times> 'n) list"
  adj :: "(gid \<times> gid list) list"
  pred_adj :: "(gid \<times> gid list) list"

definition empty_digraph :: "'n digraph" where
  "empty_digraph = \<lparr>node_attrs = [], adj = [], pred_adj = []\<rparr>"

definition nodes :: "'n digraph \<Rightarrow> gid list" where
  "nodes g = map fst (node_attrs g)"

definition has_node :: "'n digraph \<Rightarrow> gid \<Rightarrow> bool" where
  "has_node g n = (n \<in> set (nodes g))"

definition succs :: "'n digraph \<Rightarrow> gid \<Rightarrow> gid list" where
  "succs g n = (case map_of (adj g) n of None \<Rightarrow> [] | Some ps \<Rightarrow> ps)"

definition preds :: "'n digraph \<Rightarrow> gid \<Rightarrow> gid list" where
  "preds g n = (case map_of (pred_adj g) n of None \<Rightarrow> [] | Some cs \<Rightarrow> cs)"

definition add_node :: "'n \<Rightarrow> 'n digraph \<Rightarrow> gid \<Rightarrow> 'n digraph" where
  \<comment> \<open>a new node starts with the empty attribute dictionary \<open>no_attrs\<close>\<close>
  "add_node no_attrs g n =
     (if has_node g n then g
      else g\<lparr>node_attrs := node_attrs g @ [(n, no_attrs)],
             adj := adj g @ [(n, [])],
             pred_adj := pred_adj g @ [(n, [])]\<rparr>)"

definition add_edge :: "'n \<Rightarrow> 'n digraph \<Rightarrow> gid \<Rightarrow> gid \<Rightarrow> 'n digraph" where
  "add_edge no_attrs g u v =
     (let g1 = add_node no_attrs (add_node no_attrs g u) v
      in if v \<in> set (succs g1 u) then g1
         else g1\<lparr>adj := AList.update u (succs g1 u @ [v]) (adj g1),
                 pred_adj := AList.update v (preds g1 v @ [u]) (pred_adj g1)\<rparr>)"

definition set_attrs :: "'n digraph \<Rightarrow> gid \<Rightarrow> ('n \<Rightarrow> 'n) \<Rightarrow> 'n digraph" where
  \<comment> \<open>\<open>G.node[n][key] = value\<close>, for a node \<open>n\<close> of the graph\<close>
  "set_attrs g n f = g\<lparr>node_attrs := AList.map_entry n f (node_attrs g)\<rparr>"

definition attr :: "'n digraph \<Rightarrow> gid \<Rightarrow> ('n \<Rightarrow> 'v option) \<Rightarrow> error + 'v" where
  \<comment> \<open>\<open>G.node[n][key]\<close>\<close>
  "attr g n key =
     (case map_of (node_attrs g) n of
        None \<Rightarrow> Inl KeyError
      | Some a \<Rightarrow> (case key a of None \<Rightarrow> Inl KeyError | Some v \<Rightarrow> Inr v))"

definition successors :: "'n digraph \<Rightarrow> gid \<Rightarrow> error + gid list" where
  "successors g n = (if has_node g n then Inr (succs g n) else Inl NetworkXError)"

definition predecessors :: "'n digraph \<Rightarrow> gid \<Rightarrow> error + gid list" where
  "predecessors g n = (if has_node g n then Inr (preds g n) else Inl NetworkXError)"

text \<open>
  \<open>networkx.descendants\<close> and \<open>networkx.ancestors\<close>: the nodes reachable from a node along
  the edges (against the edges), the node itself excluded. Reachability is computed by
  expanding the neighbours once per node of the graph.
\<close>

fun reach :: "(gid \<Rightarrow> gid list) \<Rightarrow> nat \<Rightarrow> gid list \<Rightarrow> gid list" where
  "reach next_of 0 seen = seen"
| "reach next_of (Suc n) seen = reach next_of n (remdups (seen @ concat (map next_of seen)))"

definition descendants :: "'n digraph \<Rightarrow> gid \<Rightarrow> gid list" where
  "descendants g n = removeAll n (reach (succs g) (length (nodes g)) (succs g n))"

definition ancestors :: "'n digraph \<Rightarrow> gid \<Rightarrow> gid list" where
  "ancestors g n = removeAll n (reach (preds g) (length (nodes g)) (preds g n))"

text \<open>
  \<open>max(sorted(ids), key=...)\<close>: the key is computed for every element in turn and may
  raise; a later element replaces the current maximum only when its key is strictly
  greater, so among equal keys the first, that is the smallest id, is returned.
\<close>

fun max_loop :: "(gid \<Rightarrow> error + int) \<Rightarrow> gid \<Rightarrow> int \<Rightarrow> gid list \<Rightarrow> error + gid" where
  "max_loop key best best_val [] = Inr best"
| "max_loop key best best_val (x # xs) =
     bindE (key x) (\<lambda>v. if v > best_val then max_loop key x v xs else max_loop key best best_val xs)"

fun min_loop :: "(gid \<Rightarrow> error + int) \<Rightarrow> gid \<Rightarrow> int \<Rightarrow> gid list \<Rightarrow> error + gid" where
  "min_loop key best best_val [] = Inr best"
| "min_loop key best best_val (x # xs) =
     bindE (key x) (\<lambda>v. if v < best_val then min_loop key x v xs else min_loop key best best_val xs)"

definition max_by :: "(gid \<Rightarrow> error + int) \<Rightarrow> gid list \<Rightarrow> error + gid option" where
  \<comment> \<open>the callers test for the empty collection first and return \<open>None\<close> for it\<close>
  "max_by key ids =
     (case ids of [] \<Rightarrow> Inr None
      | x # xs \<Rightarrow> bindE (key x) (\<lambda>v. bindE (max_loop key x v xs) (\<lambda>r. Inr (Some r))))"

definition min_by :: "(gid \<Rightarrow> error + int) \<Rightarrow> gid list \<Rightarrow> error + gid option" where
  "min_by key ids =
     (case ids of [] \<Rightarrow> Inr None
      | x # xs \<Rightarrow> bindE (key x) (\<lambda>v. bindE (min_loop key x v xs) (\<lambda>r. Inr (Some r))))"

definition sorted_ids :: "gid list \<Rightarrow> gid list" where
  \<comment> \<open>\<open>sorted(s)\<close> of a set \<open>s\<close>\<close>
  "sorted_ids ids = sort (remdups ids)"

section \<open>Blockchain (blockchain.py)\<close>

record bnode =
  chain_length :: "int option"
  bc_block_data :: "block option"

definition no_bnode :: bnode where
  "no_bnode = \<lparr>chain_length = None, bc_block_data = None\<rparr>"

record blockchain =
  bc_G :: "bnode digraph"
  bc_leaves :: "gid list"
  longest_chain_tip_gid :: "gid option"
  longest_chain :: "gid list"

definition Blockchain_init :: blockchain where
  "Blockchain_init =
     \<lparr>bc_G = empty_digraph, bc_leaves = [], longest_chain_tip_gid = None, longest_chain = []\<rparr>"

definition bc_contains :: "blockchain \<Rightarrow> gid \<Rightarrow> bool" where
  "bc_contains s global_id = has_node (bc_G s) global_id"

definition get_longest_chain_tip :: "blockchain \<Rightarrow> gid list \<Rightarrow> error + gid option" where
  "get_longest_chain_tip s global_ids =
     max_by (\<lambda>gid. attr (bc_G s) gid chain_length) (sorted_ids global_ids)"

text \<open>
  \<open>_chain_generator\<close> yields \<open>counter + 1\<close> pairs at most; after each yield it moves to
  the longest-chain parent of the block just yielded. \<open>chain_next\<close> is that move: it
  raises when the block just yielded was \<open>None\<close>.
\<close>

definition chain_next :: "blockchain \<Rightarrow> gid option \<Rightarrow> error + gid option" where
  "chain_next s gid =
     (case gid of None \<Rightarrow> Inl NetworkXError
      | Some g \<Rightarrow> bindE (successors (bc_G s) g) (\<lambda>ps. get_longest_chain_tip s ps))"

definition chain_start :: "blockchain \<Rightarrow> gid option \<Rightarrow> error + nat" where
  \<comment> \<open>the number of pairs the generator can yield: \<open>counter + 1\<close> when \<open>counter >= 0\<close>\<close>
  "chain_start s tip_gid =
     (case tip_gid of None \<Rightarrow> Inr 0
      | Some g \<Rightarrow> bindE (attr (bc_G s) g chain_length) (\<lambda>cl. Inr (nat cl)))"

text \<open>The first \<open>for\<close> loop of \<open>_update_longest_chain_incrementally\<close>: walk down from the
  new tip until a block of the longest chain is met. The natural number counts the pairs
  the generator can still yield.\<close>

fun find_intersection :: "blockchain \<Rightarrow> nat \<Rightarrow> gid option \<Rightarrow> gid list
    \<Rightarrow> error + (gid option \<times> gid list)" where
  "find_intersection s 0 gid to_add = Inr (None, to_add)"
| "find_intersection s (Suc n) gid to_add =
     (case gid of
        None \<Rightarrow> Inl NetworkXError
      | Some g \<Rightarrow>
          if g \<in> set (longest_chain s) then Inr (Some g, to_add)
          else bindE (chain_next s gid) (\<lambda>nxt. find_intersection s n nxt (to_add @ [g])))"

text \<open>The second \<open>for\<close> loop: remove the blocks of the old chain down to the intersection;
  \<open>set.remove\<close> raises for an element that is not there.\<close>

fun remove_old_chain :: "blockchain \<Rightarrow> nat \<Rightarrow> gid option \<Rightarrow> gid option \<Rightarrow> gid list
    \<Rightarrow> error + gid list" where
  "remove_old_chain s 0 gid chain_intersection_gid chain = Inr chain"
| "remove_old_chain s (Suc n) gid chain_intersection_gid chain =
     (if gid = chain_intersection_gid then Inr chain
      else (case gid of
              None \<Rightarrow> Inl KeyError
            | Some g \<Rightarrow>
                if g \<notin> set chain then Inl KeyError
                else bindE (chain_next s gid)
                       (\<lambda>nxt. remove_old_chain s n nxt chain_intersection_gid (removeAll g chain))))"

definition update_longest_chain_incrementally :: "blockchain \<Rightarrow> gid \<Rightarrow> gid option \<Rightarrow> error + blockchain" where
  "update_longest_chain_incrementally s global_id parent =
     bindE (attr (bc_G s) global_id chain_length) (\<lambda>cl.
     bindE (case longest_chain_tip_gid s of
              None \<Rightarrow> Inr True
            | Some tip \<Rightarrow> bindE (attr (bc_G s) tip chain_length) (\<lambda>tip_cl.
                Inr (cl > tip_cl \<or> (cl = tip_cl \<and> global_id < tip)))) (\<lambda>is_new_tip.
     if \<not> is_new_tip then Inr s
     else
       (let previous_tip_gid = longest_chain_tip_gid s;
            s1 = s\<lparr>longest_chain_tip_gid := Some global_id\<rparr>
        in if parent = previous_tip_gid
           then Inr (s1\<lparr>longest_chain := set_ior (longest_chain s1) [global_id]\<rparr>)
           else
             bindE (chain_start s1 (Some global_id)) (\<lambda>n1.
             bindE (find_intersection s1 n1 (Some global_id) []) (\<lambda>(chain_intersection_gid, to_add).
             bindE (chain_start s1 previous_tip_gid) (\<lambda>n2.
             bindE (remove_old_chain s1 n2 previous_tip_gid chain_intersection_gid (longest_chain s1))
               (\<lambda>chain. Inr (s1\<lparr>longest_chain := set_ior chain to_add\<rparr>))))))))"

definition bc_add :: "blockchain \<Rightarrow> block \<Rightarrow> error + blockchain" where
  "bc_add s b =
     (let copy_gid = hash b in
      bindE (get_longest_chain_tip s (get_parents b)) (\<lambda>parent.
      bindE (case parent of None \<Rightarrow> Inr 1
             | Some p \<Rightarrow> bindE (attr (bc_G s) p chain_length) (\<lambda>cl. Inr (1 + cl))) (\<lambda>cl.
      let g1 = add_node no_bnode (bc_G s) copy_gid;
          g2 = set_attrs g1 copy_gid (\<lambda>a. a\<lparr>chain_length := Some cl, bc_block_data := Some b\<rparr>);
          g3 = (case parent of None \<Rightarrow> g2 | Some p \<Rightarrow> add_edge no_bnode g2 copy_gid p);
          l1 = (case parent of None \<Rightarrow> bc_leaves s | Some p \<Rightarrow> removeAll p (bc_leaves s));
          l2 = set_ior l1 [copy_gid]
      in update_longest_chain_incrementally (s\<lparr>bc_G := g3, bc_leaves := l2\<rparr>) copy_gid parent)))"

text \<open>
  The depth is Python's \<open>-float('inf')\<close> for an absent block; the tri-valued answer of
  \<open>is_a_before_b\<close> is \<open>None\<close>, \<open>Some True\<close> or \<open>Some False\<close>.
\<close>

datatype depth = NegInf | Depth int

definition bc_get_depth :: "blockchain \<Rightarrow> gid \<Rightarrow> error + depth" where
  "bc_get_depth s global_id =
     (if \<not> bc_contains s global_id then Inr NegInf
      else if global_id \<notin> set (longest_chain s) then Inr (Depth 0)
      else (case longest_chain_tip_gid s of
              None \<Rightarrow> Inl KeyError
            | Some tip \<Rightarrow>
                bindE (attr (bc_G s) tip chain_length) (\<lambda>tip_cl.
                bindE (attr (bc_G s) global_id chain_length) (\<lambda>cl. Inr (Depth (tip_cl - cl))))))"

definition bc_is_a_before_b :: "blockchain \<Rightarrow> gid \<Rightarrow> gid \<Rightarrow> error + bool option" where
  "bc_is_a_before_b s a b =
     (let a_in = (a \<in> set (longest_chain s)); b_in = (b \<in> set (longest_chain s))
      in if \<not> a_in \<and> \<not> b_in then Inr None
         else if \<not> a_in \<and> b_in then Inr (Some False)
         else if a_in \<and> \<not> b_in then Inr (Some True)
         else bindE (attr (bc_G s) a chain_length) (\<lambda>cl_a.
              bindE (attr (bc_G s) b chain_length) (\<lambda>cl_b. Inr (Some (cl_a \<le> cl_b)))))"

fun bc_adds :: "blockchain \<Rightarrow> block list \<Rightarrow> error + blockchain" where
  "bc_adds s [] = Inr s"
| "bc_adds s (b # bs) = bindE (bc_add s b) (\<lambda>s'. bc_adds s' bs)"

section \<open>PHANTOM, the brute-force engine (phantom.py)\<close>

text \<open>
  The attribute dictionary of a node of a PHANTOM graph. A key that was never set is
  \<open>None\<close>; the keys of GreedyPHANTOM are part of the same dictionary. A node created by
  \<open>add_edge\<close> for a parent that was never added has no key at all.
\<close>

record pnode =
  block_data :: "block option"
  lid :: "nat option"
  blue_anticone :: "gid list option"
  self_order_index :: "nat option option"
  coloring_parent :: "gid option option"
  blue_diff_past_order :: "(gid \<times> nat option) list option"
  red_diff_past_order :: "(gid \<times> nat option) list option"
  height :: "int option"
  blue_number :: "int option"

definition no_pnode :: pnode where
  "no_pnode = \<lparr>block_data = None, lid = None, blue_anticone = None, self_order_index = None,
     coloring_parent = None, blue_diff_past_order = None, red_diff_past_order = None,
     height = None, blue_number = None\<rparr>"

record phantom =
  G :: "pnode digraph"
  leaves :: "gid list"
  coloring :: "gid list"
  genesis_gid :: "gid option"
  k :: int

definition calculate_k :: int where
  "calculate_k = 4"

definition PHANTOM_init :: "int option \<Rightarrow> phantom" where
  "PHANTOM_init k_arg =
     \<lparr>G = empty_digraph, leaves = [], coloring = [], genesis_gid = None,
      k = (case k_arg of None \<Rightarrow> calculate_k | Some v \<Rightarrow> v)\<rparr>"

definition ph_contains :: "phantom \<Rightarrow> gid \<Rightarrow> bool" where
  "ph_contains s global_id = has_node (G s) global_id"

definition get_past :: "pnode digraph \<Rightarrow> gid \<Rightarrow> gid list" where
  "get_past g global_id = descendants g global_id"

definition get_future :: "pnode digraph \<Rightarrow> gid \<Rightarrow> gid list" where
  "get_future g global_id = ancestors g global_id"

definition get_anticone :: "pnode digraph \<Rightarrow> gid \<Rightarrow> gid list" where
  "get_anticone g global_id =
     (let block_cone = {global_id} \<union> set (get_past g global_id) \<union> set (get_future g global_id)
      in filter (\<lambda>n. n \<notin> block_cone) (nodes g))"

text \<open>The graph and leaves part of \<open>add\<close>, common to all PHANTOM engines.\<close>

definition add_to_graph :: "pnode digraph \<Rightarrow> block \<Rightarrow> pnode digraph" where
  "add_to_graph g b =
     (let global_id = hash b;
          g1 = add_node no_pnode g global_id;
          g2 = set_attrs g1 global_id (\<lambda>a. a\<lparr>block_data := Some b\<rparr>)
      in foldl (\<lambda>gr parent. add_edge no_pnode gr global_id parent) g2 (get_parents b))"

definition update_leaves :: "gid list \<Rightarrow> block \<Rightarrow> gid list" where
  "update_leaves lvs b = set_ior (set_isub lvs (get_parents b)) [hash b]"

text \<open>\<open>powerset\<close> in the order of \<open>itertools\<close>: by size, and within a size in the order of
  \<open>itertools.combinations\<close>.\<close>

fun combinations :: "'a list \<Rightarrow> nat \<Rightarrow> 'a list list" where
  "combinations xs 0 = [[]]"
| "combinations [] (Suc r) = []"
| "combinations (x # xs) (Suc r) = map ((#) x) (combinations xs r) @ combinations xs (Suc r)"

definition powerset :: "'a list \<Rightarrow> 'a list list" where
  "powerset s = concat (map (combinations s) [0..<length s + 1])"

fun compute_blue_anticones :: "int \<Rightarrow> (gid \<times> gid list) list \<Rightarrow> gid list
    \<Rightarrow> (gid \<times> gid list) list option" where
  "compute_blue_anticones kk [] col = Some []"
| "compute_blue_anticones kk ((cur_block, anticone) # rest) col =
     (let bac = filter (\<lambda>x. x \<in> set col) anticone
      in if cur_block \<in> set col \<and> int (length bac) > kk then None
         else (case compute_blue_anticones kk rest col of
                 None \<Rightarrow> None
               | Some blue_bacs \<Rightarrow> Some ((cur_block, bac) # blue_bacs)))"

fun coloring_loop :: "int \<Rightarrow> (gid \<times> gid list) list \<Rightarrow> gid list \<times> (gid \<times> gid list) list
    \<Rightarrow> gid list list \<Rightarrow> gid list \<times> (gid \<times> gid list) list" where
  "coloring_loop kk anticones best [] = best"
| "coloring_loop kk anticones (max_coloring, max_coloring_bac) (cur_coloring # rest) =
     (case compute_blue_anticones kk anticones cur_coloring of
        Some cur_coloring_bac \<Rightarrow>
          if length cur_coloring > length max_coloring
          then coloring_loop kk anticones (cur_coloring, cur_coloring_bac) rest
          else coloring_loop kk anticones (max_coloring, max_coloring_bac) rest
      | None \<Rightarrow> coloring_loop kk anticones (max_coloring, max_coloring_bac) rest)"

definition ph_update_coloring_incrementally :: "phantom \<Rightarrow> gid \<Rightarrow> phantom" where
  "ph_update_coloring_incrementally s global_id =
     (let anticones = map (\<lambda>n. (n, get_anticone (G s) n)) (nodes (G s))
      in case coloring_loop (k s) anticones ([], []) (powerset (nodes (G s))) of
           (max_coloring, max_coloring_bac) \<Rightarrow>
             s\<lparr>coloring := max_coloring,
               G := foldl (\<lambda>gr (n, bac). set_attrs gr n (\<lambda>a. a\<lparr>blue_anticone := Some bac\<rparr>))
                      (G s) max_coloring_bac\<rparr>)"

text \<open>
  \<open>TopologicalOrderer.get_topological_order\<close>. The set \<open>_ordered\<close> is threaded through the
  recursion; the fuel bounds the depth of the recursion.
\<close>

fun get_topological_order :: "nat \<Rightarrow> pnode digraph \<Rightarrow> gid list \<Rightarrow> gid set \<Rightarrow> gid list
      \<Rightarrow> error + (gid list \<times> gid set)"
  and order_leaves :: "nat \<Rightarrow> pnode digraph \<Rightarrow> gid list \<Rightarrow> gid set \<Rightarrow> gid list \<Rightarrow> gid list
      \<Rightarrow> error + (gid list \<times> gid set)" where
  "get_topological_order 0 g col ordered lvs = Inl OutOfFuel"
| "get_topological_order (Suc fuel) g col ordered lvs =
     (let lvs1 = filter (\<lambda>x. x \<notin> ordered) lvs
      in if lvs1 = [] then Inr ([], ordered)
         else (let blue_leaves_set = filter (\<lambda>x. x \<in> set col) lvs1
               in order_leaves fuel g col ordered
                    (sorted_ids blue_leaves_set
                     @ sorted_ids (filter (\<lambda>x. x \<notin> set blue_leaves_set) lvs1)) []))"
| "order_leaves fuel g col ordered [] cur_order = Inr (cur_order, ordered)"
| "order_leaves fuel g col ordered (leaf # rest) cur_order =
     (case successors g leaf of
        Inl e \<Rightarrow> Inl e
      | Inr ps \<Rightarrow>
          (case get_topological_order fuel g col (insert leaf ordered) ps of
             Inl e \<Rightarrow> Inl e
           | Inr (cur_leaf_order, ordered1) \<Rightarrow>
               order_leaves fuel g col ordered1 rest (cur_order @ cur_leaf_order @ [leaf])))"

definition ph_update_topological_order_incrementally :: "nat \<Rightarrow> phantom \<Rightarrow> gid \<Rightarrow> error + phantom" where
  "ph_update_topological_order_incrementally fuel s global_id =
     bindE (get_topological_order fuel (G s) (coloring s) {} (leaves s)) (\<lambda>(new_order, ordered).
       Inr (s\<lparr>genesis_gid := (case new_order of [] \<Rightarrow> None | x # xs \<Rightarrow> Some x),
              G := foldl (\<lambda>gr (new_lid, cur_gid). set_attrs gr cur_gid (\<lambda>a. a\<lparr>lid := Some new_lid\<rparr>))
                     (G s) (enumerate 0 new_order)\<rparr>))"

definition ph_add :: "nat \<Rightarrow> phantom \<Rightarrow> block \<Rightarrow> error + phantom" where
  "ph_add fuel s b =
     (let s1 = s\<lparr>G := add_to_graph (G s) b, leaves := update_leaves (leaves s) b\<rparr>;
          s2 = ph_update_coloring_incrementally s1 (hash b)
      in ph_update_topological_order_incrementally fuel s2 (hash b))"

fun ph_adds :: "nat \<Rightarrow> phantom \<Rightarrow> block list \<Rightarrow> error + phantom" where
  "ph_adds fuel s [] = Inr s"
| "ph_adds fuel s (b # bs) = bindE (ph_add fuel s b) (\<lambda>s'. ph_adds fuel s' bs)"

definition ph_is_blue :: "phantom \<Rightarrow> gid \<Rightarrow> bool" where
  "ph_is_blue s global_id = (global_id \<in> set (coloring s))"

definition ph_get_coloring :: "phantom \<Rightarrow> gid list" where
  "ph_get_coloring s = coloring s"

definition ph_get_local_id :: "phantom \<Rightarrow> gid \<Rightarrow> error + nat" where
  "ph_get_local_id s global_id = attr (G s) global_id lid"

definition ph_is_a_before_b :: "phantom \<Rightarrow> gid \<Rightarrow> gid \<Rightarrow> error + bool option" where
  "ph_is_a_before_b s a b =
     (let has_a = ph_contains s a; has_b = ph_contains s b
      in if \<not> has_a \<and> \<not> has_b then Inr None
         else if has_a \<and> \<not> has_b then Inr (Some True)
         else if \<not> has_a \<and> has_b then Inr (Some False)
         else bindE (ph_get_local_id s a) (\<lambda>la.
              bindE (ph_get_local_id s b) (\<lambda>lb. Inr (Some (la \<le> lb)))))"

definition ph_get_depth :: "phantom \<Rightarrow> gid \<Rightarrow> depth" where
  "ph_get_depth s global_id = NegInf"

definition ph_get_virtual_block_parents :: "phantom \<Rightarrow> gid list" where
  "ph_get_virtual_block_parents s = leaves s"

text \<open>
  What networkx guarantees of a graph, and what \<open>add\<close> keeps of the leaves: every
  successor recorded in the graph is a node of the graph, and every leaf is a node.
\<close>

definition digraph_ok :: "'n digraph \<Rightarrow> bool" where
  "digraph_ok g = (\<forall>(n, ps) \<in> set (adj g). set ps \<subseteq> set (nodes g))"

definition ph_ok :: "phantom \<Rightarrow> bool" where
  "ph_ok s = (digraph_ok (G s) \<and> set (leaves s) \<subseteq> set (nodes (G s)))"

text \<open>The number of blue blocks in the anticone of a block, and the bound that the
  coloring is to respect.\<close>

definition blue_in_anticone :: "pnode digraph \<Rightarrow> gid list \<Rightarrow> gid \<Rightarrow> nat" where
  "blue_in_anticone g col b = card (set (get_anticone g b) \<inter> set col)"

definition blue_anticones_bounded :: "phantom \<Rightarrow> bool" where
  "blue_anticones_bounded s =
     (\<forall>b \<in> set (ph_get_coloring s). int (blue_in_anticone (G s) (ph_get_coloring s) b) \<le> k s)"

section \<open>GreedyPHANTOM (greedy\_phantom.py)\<close>

text \<open>
  \<open>KChain.minimal_height\<close> is \<open>float('inf')\<close> or the height of a block.
\<close>

datatype height_bound = Inf | Fin int

fun height_less :: "int \<Rightarrow> height_bound \<Rightarrow> bool" where
  "height_less h Inf = True"
| "height_less h (Fin m) = (h < m)"

record kchain =
  global_ids :: "gid list"
  minimal_height :: height_bound

type_synonym order_dict = "(gid \<times> nat option) list"

text \<open>
  The state of a GreedyPHANTOM object. The \<open>ChainMap\<close>s \<open>_blue_past_order\<close> and
  \<open>_red_past_order\<close> hold, after an initial empty dictionary, the diff-past dictionaries
  of blocks: the same dictionary objects as the node attributes, which the topological
  ordering later fills in. A map of such a \<open>ChainMap\<close> is therefore the global id of the
  block whose dictionary it is (\<open>None\<close> for the initial empty dictionary); this is exact
  as long as no global id is added twice. \<open>_antipast\<close> is the value computed once in
  \<open>__init__\<close> by \<open>ChainMap(self._antipast_order).keys() | self._uncolored_unordered_antipast\<close>:
  the operator \<open>|\<close> of a key view builds a new \<open>set\<close>, which no later statement updates.
  The set objects of the LazySet \<open>_uncolored_unordered_antipast\<close> live in \<open>heap\<close>. The
  inherited field \<open>coloring\<close> is not read: \<open>_coloring\<close> is the key view of
  \<open>_coloring_order\<close>, computed by \<open>coloring_keys\<close> below.
\<close>

record greedy = phantom +
  coloring_tip_gid :: "gid option"
  coloring_chain :: "gid list"
  k_chain :: kchain
  blue_past_order :: "gid option list"
  red_past_order :: "gid option list"
  blue_antipast_order :: order_dict
  red_antipast_order :: order_dict
  uncolored_unordered_antipast :: lazy_set
  heap :: "gid heap"
  antipast :: "gid list"

definition GreedyPHANTOM_init :: "int option \<Rightarrow> greedy" where
  "GreedyPHANTOM_init k_arg =
     \<lparr>G = empty_digraph, leaves = [], coloring = [], genesis_gid = None,
      k = (case k_arg of None \<Rightarrow> calculate_k | Some v \<Rightarrow> v),
      coloring_tip_gid = None, coloring_chain = [],
      k_chain = \<lparr>global_ids = [], minimal_height = Inf\<rparr>,
      blue_past_order = [None], red_past_order = [None],
      blue_antipast_order = [], red_antipast_order = [],
      uncolored_unordered_antipast = LazySet_new, heap = [], antipast = []\<rparr>"

definition keys :: "order_dict \<Rightarrow> gid list" where
  "keys d = map fst d"

definition blue_diff_of :: "pnode digraph \<Rightarrow> gid option \<Rightarrow> order_dict" where
  \<comment> \<open>the dictionary that a map of \<open>_blue_past_order\<close> refers to\<close>
  "blue_diff_of g r =
     (case r of None \<Rightarrow> []
      | Some n \<Rightarrow> (case attr g n blue_diff_past_order of Inl e \<Rightarrow> [] | Inr d \<Rightarrow> d))"

definition red_diff_of :: "pnode digraph \<Rightarrow> gid option \<Rightarrow> order_dict" where
  "red_diff_of g r =
     (case r of None \<Rightarrow> []
      | Some n \<Rightarrow> (case attr g n red_diff_past_order of Inl e \<Rightarrow> [] | Inr d \<Rightarrow> d))"

definition mapping_maps :: "greedy \<Rightarrow> order_dict list" where
  \<comment> \<open>the dictionaries of \<open>_mapping\<close> in lookup order\<close>
  "mapping_maps s =
     map (blue_diff_of (G s)) (blue_past_order s) @ map (red_diff_of (G s)) (red_past_order s)
     @ [blue_antipast_order s, red_antipast_order s]"

definition mapping_keys :: "greedy \<Rightarrow> gid list" where
  "mapping_keys s = remdups (concat (map keys (mapping_maps s)))"

definition mapping_get :: "greedy \<Rightarrow> gid \<Rightarrow> nat option" where
  \<comment> \<open>\<open>self._mapping.get(global_id, None)\<close>\<close>
  "mapping_get s global_id =
     (case List.find (\<lambda>d. global_id \<in> set (keys d)) (mapping_maps s) of
        None \<Rightarrow> None
      | Some d \<Rightarrow> (case map_of d global_id of None \<Rightarrow> None | Some v \<Rightarrow> v))"

definition coloring_keys :: "greedy \<Rightarrow> gid list" where
  \<comment> \<open>\<open>self._coloring_order.keys()\<close>\<close>
  "coloring_keys s =
     remdups (concat (map (\<lambda>r. keys (blue_diff_of (G s) r)) (blue_past_order s))
              @ keys (blue_antipast_order s))"

definition gr_contains :: "greedy \<Rightarrow> gid \<Rightarrow> bool" where
  "gr_contains s global_id = has_node (G s) global_id"

text \<open>Operations on the LazySet \<open>_uncolored_unordered_antipast\<close>, given a set by value.\<close>

definition uncolored_lazy_update :: "greedy \<Rightarrow> gid list \<Rightarrow> greedy" where
  "uncolored_lazy_update s other =
     (case alloc (heap s) other of
        (a, h) \<Rightarrow> s\<lparr>heap := h,
                     uncolored_unordered_antipast := lazy_update h (uncolored_unordered_antipast s) a\<rparr>)"

definition uncolored_lazy_difference_update :: "greedy \<Rightarrow> gid list \<Rightarrow> greedy" where
  "uncolored_lazy_difference_update s other =
     (case alloc (heap s) other of
        (a, h) \<Rightarrow> s\<lparr>heap := h,
                     uncolored_unordered_antipast :=
                       lazy_difference_update h (uncolored_unordered_antipast s) a\<rparr>)"

definition uncolored_add :: "greedy \<Rightarrow> gid \<Rightarrow> greedy" where
  \<comment> \<open>\<open>add(elem)\<close> is \<open>update({elem})\<close>, that is \<open>lazy_update(set({elem}))\<close>\<close>
  "uncolored_add s elem = uncolored_lazy_update s [elem]"

definition get_extreme_blue :: "pnode digraph \<Rightarrow> gid list \<Rightarrow> bool \<Rightarrow> error + gid option" where
  "get_extreme_blue g ids bluest =
     (if bluest then max_by (\<lambda>gid. attr g gid blue_number) (sorted_ids ids)
      else min_by (\<lambda>gid. attr g gid blue_number) (sorted_ids ids))"

definition get_bluest :: "pnode digraph \<Rightarrow> gid list \<Rightarrow> error + gid option" where
  "get_bluest g ids = get_extreme_blue g ids True"

text \<open>
  \<open>_local_tip_to_global_tip_generator\<close>: first the chain of the local tip down to the
  first block of the main coloring chain, then the main coloring chain from its tip down
  to that block. Every loop that follows \<open>_coloring_chain_generator\<close> takes fuel, since
  the generator does not end on a cycle of coloring parents.
\<close>

fun to_intersection :: "nat \<Rightarrow> pnode digraph \<Rightarrow> gid list \<Rightarrow> gid option
    \<Rightarrow> error + ((gid \<times> bool \<times> bool) list \<times> gid option)" where
  "to_intersection 0 g chain cur = Inl OutOfFuel"
| "to_intersection (Suc fuel) g chain cur =
     (case cur of
        None \<Rightarrow> Inr ([], None)
      | Some c \<Rightarrow>
          if c \<in> set chain then Inr ([(c, True, True)], Some c)
          else bindE (attr g c coloring_parent) (\<lambda>nxt.
               bindE (to_intersection fuel g chain nxt) (\<lambda>(xs, i). Inr ((c, False, False) # xs, i))))"

fun from_global_tip :: "nat \<Rightarrow> pnode digraph \<Rightarrow> gid option \<Rightarrow> gid option
    \<Rightarrow> error + (gid \<times> bool \<times> bool) list" where
  "from_global_tip 0 g intersection_gid cur = Inl OutOfFuel"
| "from_global_tip (Suc fuel) g intersection_gid cur =
     (case cur of
        None \<Rightarrow> Inr []
      | Some c \<Rightarrow>
          if cur = intersection_gid then Inr []
          else bindE (attr g c coloring_parent) (\<lambda>nxt.
               bindE (from_global_tip fuel g intersection_gid nxt) (\<lambda>xs. Inr ((c, True, False) # xs))))"

definition local_tip_to_global_tip :: "nat \<Rightarrow> greedy \<Rightarrow> gid option
    \<Rightarrow> error + (gid \<times> bool \<times> bool) list" where
  "local_tip_to_global_tip fuel s local_tip_global_id =
     bindE (to_intersection fuel (G s) (coloring_chain s) local_tip_global_id) (\<lambda>(xs, i).
     bindE (from_global_tip fuel (G s) i (coloring_tip_gid s)) (\<lambda>ys. Inr (xs @ ys)))"

text \<open>\<open>_coloring_rule_2\<close> and \<open>_color_block\<close>.\<close>

fun coloring_rule_2 :: "nat \<Rightarrow> pnode digraph \<Rightarrow> kchain \<Rightarrow> gid option \<Rightarrow> error + bool" where
  "coloring_rule_2 0 g kc cur = Inl OutOfFuel"
| "coloring_rule_2 (Suc fuel) g kc cur =
     (case cur of
        None \<Rightarrow> Inr False
      | Some c \<Rightarrow>
          bindE (attr g c height) (\<lambda>h.
            if height_less h (minimal_height kc) then Inr False
            else if c \<in> set (global_ids kc) then Inr True
            else bindE (attr g c coloring_parent) (\<lambda>nxt. coloring_rule_2 fuel g kc nxt)))"

definition color_block :: "nat \<Rightarrow> pnode digraph \<Rightarrow> kchain \<Rightarrow> order_dict \<Rightarrow> order_dict \<Rightarrow> gid
    \<Rightarrow> error + (order_dict \<times> order_dict)" where
  "color_block fuel g kc blue_order red_order global_id =
     bindE (coloring_rule_2 fuel g kc (Some global_id)) (\<lambda>is_blue.
       if is_blue then Inr (AList.update global_id None blue_order, red_order)
       else Inr (blue_order, AList.update global_id None red_order))"

text \<open>\<open>_get_k_chain\<close>.\<close>

fun get_k_chain_loop :: "nat \<Rightarrow> pnode digraph \<Rightarrow> int \<Rightarrow> gid option \<Rightarrow> gid list \<Rightarrow> height_bound
    \<Rightarrow> int \<Rightarrow> error + kchain" where
  "get_k_chain_loop 0 g kk cur chain_blocks min_height blue_count = Inl OutOfFuel"
| "get_k_chain_loop (Suc fuel) g kk cur chain_blocks min_height blue_count =
     (case cur of
        None \<Rightarrow> Inr \<lparr>global_ids = chain_blocks, minimal_height = min_height\<rparr>
      | Some c \<Rightarrow>
          if blue_count > kk then Inr \<lparr>global_ids = chain_blocks, minimal_height = min_height\<rparr>
          else bindE (attr g c height) (\<lambda>h.
               bindE (attr g c blue_diff_past_order) (\<lambda>bd.
               bindE (attr g c coloring_parent) (\<lambda>nxt.
                 get_k_chain_loop fuel g kk nxt (set_ior chain_blocks [c]) (Fin h)
                   (blue_count + int (length bd))))))"

definition get_k_chain :: "nat \<Rightarrow> greedy \<Rightarrow> gid \<Rightarrow> error + kchain" where
  "get_k_chain fuel s global_id = get_k_chain_loop fuel (G s) (k s) (Some global_id) [] Inf 0"

text \<open>
  \<open>_get_antipast\<close> returns a key view, the set \<open>_antipast\<close> or a LazySet; its callers
  test membership or copy it to a set.
\<close>

datatype id_set = Plain "gid list" | Lazy "gid heap" lazy_set

fun id_set_contains :: "id_set \<Rightarrow> gid \<Rightarrow> bool" where
  "id_set_contains (Plain xs) x = (x \<in> set xs)"
| "id_set_contains (Lazy h L) x = contains h L x"

fun id_set_elems :: "id_set \<Rightarrow> gid list" where
  "id_set_elems (Plain xs) = xs"
| "id_set_elems (Lazy h L) = iter h L"

fun antipast_sets :: "pnode digraph \<Rightarrow> (gid \<times> bool \<times> bool) list \<Rightarrow> gid list list \<Rightarrow> gid list list
    \<Rightarrow> error + (gid list list \<times> gid list list)" where
  "antipast_sets g [] positive_sets negative_sets = Inr (positive_sets, negative_sets)"
| "antipast_sets g ((cur_chain_gid, is_main_coloring_chain, is_intersection) # rest)
       positive_sets negative_sets =
     bindE (attr g cur_chain_gid blue_diff_past_order) (\<lambda>bd.
     bindE (attr g cur_chain_gid red_diff_past_order) (\<lambda>rd.
       if \<not> is_main_coloring_chain \<or> is_intersection
       then antipast_sets g rest positive_sets (negative_sets @ [keys bd, keys rd])
       else antipast_sets g rest (positive_sets @ [keys bd, keys rd]) negative_sets))"

definition get_antipast :: "nat \<Rightarrow> greedy \<Rightarrow> gid option \<Rightarrow> error + id_set" where
  "get_antipast fuel s global_id =
     (case global_id of
        None \<Rightarrow> Inr (Plain (mapping_keys s))
      | Some g \<Rightarrow>
          if global_id = coloring_tip_gid s then Inr (Plain (antipast s))
          else
            bindE (local_tip_to_global_tip fuel s global_id) (\<lambda>triples.
            bindE (antipast_sets (G s) triples [] []) (\<lambda>(positive_sets, negative_sets).
              case LazySet_init [] (antipast s) [[]] positive_sets of
                (h, L) \<Rightarrow>
                  (case alloc_all h negative_sets of
                     (ns, h1) \<Rightarrow> Inr (Lazy h1 (foldl (lazy_difference_update h1) L ns))))))"

text \<open>\<open>_update_diff_coloring_of_block\<close>: the \<open>while\<close> loop over the queue, then the
  function itself.\<close>

fun diff_past_loop :: "nat \<Rightarrow> pnode digraph \<Rightarrow> kchain \<Rightarrow> id_set \<Rightarrow> gid list \<Rightarrow> order_dict
    \<Rightarrow> order_dict \<Rightarrow> error + (order_dict \<times> order_dict)" where
  "diff_past_loop 0 g kc parent_antipast queue blue red = Inl OutOfFuel"
| "diff_past_loop (Suc fuel) g kc parent_antipast queue blue red =
     (case queue of
        [] \<Rightarrow> Inr (blue, red)
      | block_to_color_gid # rest \<Rightarrow>
          if block_to_color_gid \<in> set (keys blue) \<or> block_to_color_gid \<in> set (keys red)
             \<or> \<not> id_set_contains parent_antipast block_to_color_gid
          then diff_past_loop fuel g kc parent_antipast rest blue red
          else
            bindE (successors g block_to_color_gid) (\<lambda>ps.
            bindE (color_block (Suc fuel) g kc blue red block_to_color_gid) (\<lambda>(blue1, red1).
              diff_past_loop fuel g kc parent_antipast (rev ps @ rest) blue1 red1)))"

definition update_diff_coloring_of_block :: "nat \<Rightarrow> greedy \<Rightarrow> gid \<Rightarrow> error + greedy" where
  "update_diff_coloring_of_block fuel s global_id =
     bindE (get_k_chain fuel s global_id) (\<lambda>kc.
     bindE (attr (G s) global_id coloring_parent) (\<lambda>cp.
     bindE (get_antipast fuel s cp) (\<lambda>parent_antipast.
     bindE (successors (G s) global_id) (\<lambda>queue.
     bindE (diff_past_loop fuel (G s) kc parent_antipast queue [] []) (\<lambda>(blue, red).
     bindE (attr (G s) global_id blue_number) (\<lambda>bn.
       Inr (s\<lparr>G := set_attrs (G s) global_id
                  (\<lambda>a. a\<lparr>blue_diff_past_order := Some blue, red_diff_past_order := Some red,
                          blue_number := Some (bn + int (length blue))\<rparr>)\<rparr>)))))))"

definition is_a_bluer_than_b :: "pnode digraph \<Rightarrow> gid \<Rightarrow> gid \<Rightarrow> error + bool" where
  "is_a_bluer_than_b g a b =
     bindE (attr g a blue_number) (\<lambda>a_blue_number.
     bindE (attr g b blue_number) (\<lambda>b_blue_number.
       Inr (a_blue_number > b_blue_number \<or> (a_blue_number = b_blue_number \<and> a < b))))"

definition is_max_coloring_tip :: "greedy \<Rightarrow> gid \<Rightarrow> error + bool" where
  "is_max_coloring_tip s global_id =
     (case coloring_tip_gid s of
        None \<Rightarrow> Inr True
      | Some tip \<Rightarrow> is_a_bluer_than_b (G s) global_id tip)"

text \<open>
  \<open>_update_past_coloring_according_to\<close>. \<open>_clear_antipast_order\<close> replaces the two
  antipast dictionaries by empty ones. The first loop walks the blocks that leave and
  enter the main coloring chain; the second appends the diff-past dictionaries of the
  blocks that entered.
\<close>

definition clear_antipast_order :: "greedy \<Rightarrow> greedy" where
  "clear_antipast_order s = s\<lparr>blue_antipast_order := [], red_antipast_order := []\<rparr>"

fun past_coloring_loop :: "greedy \<Rightarrow> (gid \<times> bool \<times> bool) list \<Rightarrow> gid list \<Rightarrow> gid list
    \<Rightarrow> error + (greedy \<times> gid list \<times> gid list)" where
  "past_coloring_loop s [] blue_diff_past_orderings red_diff_past_orderings =
     Inr (s, blue_diff_past_orderings, red_diff_past_orderings)"
| "past_coloring_loop s ((cur_chain_gid, is_main_coloring_chain, is_intersection) # rest)
       blue_diff_past_orderings red_diff_past_orderings =
     (if is_intersection
      then past_coloring_loop s rest blue_diff_past_orderings red_diff_past_orderings
      else if is_main_coloring_chain
      then
        (if cur_chain_gid \<notin> set (coloring_chain s) then Inl KeyError
         else if blue_past_order s = [] then Inl IndexError
         else
           (let s1 = s\<lparr>coloring_chain := removeAll cur_chain_gid (coloring_chain s),
                        blue_past_order := butlast (blue_past_order s)\<rparr>;
                s2 = uncolored_lazy_update s1 (keys (blue_diff_of (G s) (last (blue_past_order s))))
            in if red_past_order s2 = [] then Inl IndexError
               else
                 (let s3 = s2\<lparr>red_past_order := butlast (red_past_order s2)\<rparr>;
                      s4 = uncolored_lazy_update s3 (keys (red_diff_of (G s) (last (red_past_order s2))))
                  in past_coloring_loop s4 rest blue_diff_past_orderings red_diff_past_orderings)))
      else
        bindE (attr (G s) cur_chain_gid blue_diff_past_order) (\<lambda>bd.
        bindE (attr (G s) cur_chain_gid red_diff_past_order) (\<lambda>rd.
          past_coloring_loop (s\<lparr>coloring_chain := set_ior (coloring_chain s) [cur_chain_gid]\<rparr>) rest
            (blue_diff_past_orderings @ [cur_chain_gid])
            (red_diff_past_orderings @ [cur_chain_gid]))))"

fun append_past_orderings :: "greedy \<Rightarrow> (gid \<times> gid) list \<Rightarrow> greedy" where
  "append_past_orderings s [] = s"
| "append_past_orderings s ((b, r) # rest) =
     (let s1 = s\<lparr>blue_past_order := blue_past_order s @ [Some b],
                  red_past_order := red_past_order s @ [Some r]\<rparr>;
          s2 = uncolored_lazy_difference_update s1 (keys (blue_diff_of (G s1) (Some b)));
          s3 = uncolored_lazy_difference_update s2 (keys (red_diff_of (G s2) (Some r)))
      in append_past_orderings s3 rest)"

definition update_past_coloring_according_to :: "nat \<Rightarrow> greedy \<Rightarrow> gid \<Rightarrow> error + greedy" where
  "update_past_coloring_according_to fuel s new_tip_gid =
     (let s1 = uncolored_lazy_update s (keys (blue_antipast_order s));
          s2 = uncolored_lazy_update s1 (keys (red_antipast_order s1));
          s3 = clear_antipast_order s2;
          s4 = uncolored_add s3 new_tip_gid;
          s5 = (case coloring_tip_gid s4 of
                  None \<Rightarrow> s4
                | Some tip \<Rightarrow> if tip \<in> set (keys (blue_antipast_order s4)) then uncolored_add s4 tip
                              else s4)
      in bindE (local_tip_to_global_tip fuel s5 (Some new_tip_gid)) (\<lambda>triples.
         bindE (past_coloring_loop s5 triples [] []) (\<lambda>(s6, blue_orderings, red_orderings).
           (let s7 = append_past_orderings s6 (zip blue_orderings red_orderings);
                s8 = s7\<lparr>coloring_tip_gid := Some new_tip_gid\<rparr>
            in case flatten (heap s8) (uncolored_unordered_antipast s8) True of
                 (h, L) \<Rightarrow> Inr (s8\<lparr>heap := h, uncolored_unordered_antipast := L\<rparr>)))))"

text \<open>\<open>_update_antipast_coloring\<close>.\<close>

fun color_blocks :: "nat \<Rightarrow> pnode digraph \<Rightarrow> kchain \<Rightarrow> order_dict \<Rightarrow> order_dict \<Rightarrow> gid list
    \<Rightarrow> error + (order_dict \<times> order_dict)" where
  "color_blocks fuel g kc blue red [] = Inr (blue, red)"
| "color_blocks fuel g kc blue red (global_id # rest) =
     bindE (color_block fuel g kc blue red global_id) (\<lambda>(blue1, red1).
       color_blocks fuel g kc blue1 red1 rest)"

definition update_antipast_coloring :: "nat \<Rightarrow> greedy \<Rightarrow> error + greedy" where
  "update_antipast_coloring fuel s =
     bindE (color_blocks fuel (G s) (k_chain s) (blue_antipast_order s) (red_antipast_order s)
              (iter (heap s) (uncolored_unordered_antipast s))) (\<lambda>(blue, red).
       Inr (s\<lparr>blue_antipast_order := blue, red_antipast_order := red,
              uncolored_unordered_antipast := clear (uncolored_unordered_antipast s)\<rparr>))"

definition update_max_coloring :: "nat \<Rightarrow> greedy \<Rightarrow> gid \<Rightarrow> error + greedy" where
  "update_max_coloring fuel s global_id =
     bindE (is_max_coloring_tip s global_id) (\<lambda>is_tip.
       if \<not> is_tip then Inr s
       else
         bindE (update_past_coloring_according_to fuel s global_id) (\<lambda>s1.
         bindE (get_k_chain fuel s1 global_id) (\<lambda>kc.
           (let s2 = s1\<lparr>k_chain := kc\<rparr>
            in if (case genesis_gid s2 of None \<Rightarrow> True | Some gen \<Rightarrow> gen \<notin> set (coloring_chain s2))
               then bindE (get_extreme_blue (G s2) (coloring_chain s2) False) (\<lambda>gen.
                      Inr (s2\<lparr>genesis_gid := gen\<rparr>))
               else Inr s2))))"

text \<open>\<open>_update_coloring_incrementally\<close>.\<close>

fun max_height :: "pnode digraph \<Rightarrow> gid list \<Rightarrow> int option \<Rightarrow> error + int option" where
  "max_height g [] best = Inr best"
| "max_height g (parent # rest) best =
     bindE (attr g parent height) (\<lambda>h.
       max_height g rest (case best of None \<Rightarrow> Some h | Some m \<Rightarrow> if h > m then Some h else Some m))"

definition gr_update_coloring_incrementally :: "nat \<Rightarrow> greedy \<Rightarrow> gid \<Rightarrow> error + greedy" where
  "gr_update_coloring_incrementally fuel s global_id =
     bindE (attr (G s) global_id block_data) (\<lambda>blk.
       (let parents = get_parents blk;
            g1 = set_attrs (G s) global_id (\<lambda>a. a\<lparr>self_order_index := Some None\<rparr>)
        in bindE (get_bluest g1 parents) (\<lambda>cp.
           (let g2 = set_attrs g1 global_id
                       (\<lambda>a. a\<lparr>coloring_parent := Some cp, blue_diff_past_order := Some [],
                               red_diff_past_order := Some []\<rparr>)
            in bindE (case cp of
                        None \<Rightarrow> Inr (0, 0)
                      | Some c \<Rightarrow>
                          bindE (max_height g2 parents None) (\<lambda>mh.
                          bindE (attr g2 c blue_number) (\<lambda>bn.
                            (case mh of None \<Rightarrow> Inl ValueError | Some m \<Rightarrow> Inr (m + 1, bn)))))
                 (\<lambda>(h, bn).
                   (let g3 = set_attrs g2 global_id (\<lambda>a. a\<lparr>height := Some h, blue_number := Some bn\<rparr>);
                        s1 = uncolored_add (s\<lparr>G := g3\<rparr>) global_id
                    in bindE (update_diff_coloring_of_block fuel s1 global_id) (\<lambda>s2.
                         update_max_coloring fuel s2 global_id)))))))"

text \<open>
  \<open>_calculate_topological_order\<close>: the inner function \<open>sort_blocks\<close> and the \<open>while\<close> loop
  over the stack \<open>to_order\<close>, whose top is its last element.
\<close>

definition sort_blocks :: "gid option \<Rightarrow> gid list \<Rightarrow> gid list \<Rightarrow> gid list \<Rightarrow> gid list" where
  "sort_blocks last_block_gid later_blocks to_sort unsorted =
     (let remaining_gids = filter (\<lambda>x. Some x \<noteq> last_block_gid \<and> x \<in> set unsorted) (remdups to_sort);
          blue_gids_set = filter (\<lambda>x. x \<in> set later_blocks) remaining_gids;
          blue_gids_list = rev (sort blue_gids_set);
          red_gids_list = rev (sort (filter (\<lambda>x. x \<notin> set blue_gids_set) remaining_gids))
      in red_gids_list @ blue_gids_list
         @ (case last_block_gid of None \<Rightarrow> [] | Some l \<Rightarrow> [l]))"

fun topological_order_loop :: "nat \<Rightarrow> pnode digraph \<Rightarrow> gid list \<Rightarrow> gid list \<Rightarrow> gid list \<Rightarrow> gid list
    \<Rightarrow> error + gid list" where
  "topological_order_loop 0 g col unordered to_order ordered = Inl OutOfFuel"
| "topological_order_loop (Suc fuel) g col unordered to_order ordered =
     (if to_order = [] then Inr ordered
      else
        (let cur_gid = last to_order; to_order1 = butlast to_order
         in if cur_gid \<in> set ordered
            then topological_order_loop fuel g col unordered to_order1 ordered
            else
              bindE (successors g cur_gid) (\<lambda>ps.
                (let cur_parents = filter (\<lambda>x. x \<in> set unordered) (remdups ps)
                 in if set cur_parents \<subseteq> set ordered
                    then topological_order_loop fuel g col unordered to_order1 (ordered @ [cur_gid])
                    else
                      bindE (attr g cur_gid coloring_parent) (\<lambda>cp.
                        topological_order_loop fuel g col unordered
                          (to_order1 @ [cur_gid] @ sort_blocks cp col cur_parents unordered)
                          ordered)))))"

definition calculate_topological_order :: "nat \<Rightarrow> pnode digraph \<Rightarrow> gid option \<Rightarrow> gid list \<Rightarrow> gid list
    \<Rightarrow> gid list \<Rightarrow> error + gid list" where
  "calculate_topological_order fuel g coloring_parent_gid lvs col unordered =
     topological_order_loop fuel g col unordered
       (sort_blocks coloring_parent_gid col lvs unordered) []"

fun assign_local_ids :: "nat \<Rightarrow> order_dict \<Rightarrow> order_dict \<Rightarrow> (nat \<times> gid) list
    \<Rightarrow> order_dict \<times> order_dict" where
  "assign_local_ids starting_index blue_dict red_dict [] = (blue_dict, red_dict)"
| "assign_local_ids starting_index blue_dict red_dict ((new_lid, cur_gid) # rest) =
     (if cur_gid \<in> set (keys blue_dict)
      then assign_local_ids starting_index
             (AList.update cur_gid (Some (new_lid + starting_index)) blue_dict) red_dict rest
      else assign_local_ids starting_index blue_dict
             (AList.update cur_gid (Some (new_lid + starting_index)) red_dict) rest)"

definition update_topological_order_in_dicts :: "nat \<Rightarrow> pnode digraph \<Rightarrow> order_dict \<Rightarrow> order_dict
    \<Rightarrow> gid list \<Rightarrow> gid option \<Rightarrow> error + (order_dict \<times> order_dict)" where
  "update_topological_order_in_dicts fuel g blue_dict red_dict lvs coloring_parent_gid =
     bindE (case coloring_parent_gid of
              None \<Rightarrow> Inr 0
            | Some cp \<Rightarrow> bindE (attr g cp self_order_index) (\<lambda>soi.
                Inr (case soi of None \<Rightarrow> 0 | Some i \<Rightarrow> i))) (\<lambda>starting_index.
     bindE (calculate_topological_order fuel g coloring_parent_gid lvs (keys blue_dict)
              (remdups (keys blue_dict @ keys red_dict))) (\<lambda>order.
       Inr (assign_local_ids starting_index blue_dict red_dict (enumerate 0 order))))"

definition update_self_order_index :: "pnode digraph \<Rightarrow> gid \<Rightarrow> error + pnode digraph" where
  "update_self_order_index g global_id =
     bindE (attr g global_id blue_diff_past_order) (\<lambda>bd.
     bindE (attr g global_id red_diff_past_order) (\<lambda>rd.
       (let g1 = set_attrs g global_id
                   (\<lambda>a. a\<lparr>self_order_index := Some (Some (length bd + length rd))\<rparr>)
        in bindE (attr g1 global_id coloring_parent) (\<lambda>cp.
             (case cp of
                None \<Rightarrow> Inr g1
              | Some c \<Rightarrow>
                  bindE (attr g1 c self_order_index) (\<lambda>soi.
                    (case soi of
                       None \<Rightarrow> Inr g1
                     | Some i \<Rightarrow>
                         Inr (set_attrs g1 global_id
                                (\<lambda>a. a\<lparr>self_order_index := Some (Some (length bd + length rd + i))\<rparr>)))))))))"

definition gr_update_topological_order_incrementally :: "nat \<Rightarrow> greedy \<Rightarrow> gid \<Rightarrow> error + greedy" where
  "gr_update_topological_order_incrementally fuel s global_id =
     bindE (attr (G s) global_id blue_diff_past_order) (\<lambda>bd.
     bindE (attr (G s) global_id red_diff_past_order) (\<lambda>rd.
     bindE (attr (G s) global_id block_data) (\<lambda>blk.
     bindE (attr (G s) global_id coloring_parent) (\<lambda>cp.
     bindE (update_topological_order_in_dicts fuel (G s) bd rd (get_parents blk) cp) (\<lambda>(bd1, rd1).
     bindE (update_self_order_index
              (set_attrs (G s) global_id
                 (\<lambda>a. a\<lparr>blue_diff_past_order := Some bd1, red_diff_past_order := Some rd1\<rparr>))
              global_id) (\<lambda>g1. Inr (s\<lparr>G := g1\<rparr>)))))))"

definition gr_add :: "nat \<Rightarrow> greedy \<Rightarrow> block \<Rightarrow> error + greedy" where
  "gr_add fuel s b =
     (let s1 = s\<lparr>G := add_to_graph (G s) b, leaves := update_leaves (leaves s) b\<rparr>
      in bindE (gr_update_coloring_incrementally fuel s1 (hash b)) (\<lambda>s2.
           gr_update_topological_order_incrementally fuel s2 (hash b)))"

fun gr_adds :: "nat \<Rightarrow> greedy \<Rightarrow> block list \<Rightarrow> error + greedy" where
  "gr_adds fuel s [] = Inr s"
| "gr_adds fuel s (b # bs) = bindE (gr_add fuel s b) (\<lambda>s'. gr_adds fuel s' bs)"

text \<open>The queries. \<open>_is_blue\<close>, \<open>_get_coloring\<close> and \<open>_get_local_id\<close> colour (and order) the
  antipast first, so they return the new state as well.\<close>

definition gr_is_blue :: "nat \<Rightarrow> greedy \<Rightarrow> gid \<Rightarrow> error + (bool \<times> greedy)" where
  "gr_is_blue fuel s global_id =
     bindE (update_antipast_coloring fuel s) (\<lambda>s1. Inr (global_id \<in> set (coloring_keys s1), s1))"

definition gr_get_coloring :: "nat \<Rightarrow> greedy \<Rightarrow> error + (gid list \<times> greedy)" where
  "gr_get_coloring fuel s =
     bindE (update_antipast_coloring fuel s) (\<lambda>s1. Inr (coloring_keys s1, s1))"

definition gr_get_local_id :: "nat \<Rightarrow> greedy \<Rightarrow> gid \<Rightarrow> error + (nat option \<times> greedy)" where
  \<comment> \<open>the local id \<open>None\<close> stands for \<open>float('inf')\<close>\<close>
  "gr_get_local_id fuel s global_id =
     (if mapping_get s global_id = None \<or> len (heap s) (uncolored_unordered_antipast s) \<noteq> 0
      then
        bindE (update_antipast_coloring fuel s) (\<lambda>s1.
        bindE (update_topological_order_in_dicts fuel (G s1) (blue_antipast_order s1)
                 (red_antipast_order s1) (leaves s1) (coloring_tip_gid s1)) (\<lambda>(blue, red).
          (let s2 = s1\<lparr>blue_antipast_order := blue, red_antipast_order := red\<rparr>
           in Inr (mapping_get s2 global_id, s2))))
      else Inr (mapping_get s global_id, s))"

definition local_id_le :: "nat option \<Rightarrow> nat option \<Rightarrow> bool" where
  "local_id_le x y =
     (case y of None \<Rightarrow> True | Some b \<Rightarrow> (case x of None \<Rightarrow> False | Some a \<Rightarrow> a \<le> b))"

definition gr_is_a_before_b :: "nat \<Rightarrow> greedy \<Rightarrow> gid \<Rightarrow> gid \<Rightarrow> error + (bool option \<times> greedy)" where
  "gr_is_a_before_b fuel s a b =
     (let has_a = gr_contains s a; has_b = gr_contains s b
      in if \<not> has_a \<and> \<not> has_b then Inr (None, s)
         else if has_a \<and> \<not> has_b then Inr (Some True, s)
         else if \<not> has_a \<and> has_b then Inr (Some False, s)
         else bindE (gr_get_local_id fuel s a) (\<lambda>(la, s1).
              bindE (gr_get_local_id fuel s1 b) (\<lambda>(lb, s2). Inr (Some (local_id_le la lb), s2))))"

fun get_depth_loop :: "nat \<Rightarrow> pnode digraph \<Rightarrow> gid \<Rightarrow> gid option \<Rightarrow> int \<Rightarrow> error + depth" where
  "get_depth_loop 0 g global_id cur d = Inl OutOfFuel"
| "get_depth_loop (Suc fuel) g global_id cur d =
     (case cur of
        None \<Rightarrow> Inr (Depth 0)
      | Some cur_gid \<Rightarrow>
          bindE (attr g cur_gid red_diff_past_order) (\<lambda>rd.
            if global_id \<in> set (keys rd) then Inr (Depth 0)
            else bindE (attr g cur_gid blue_diff_past_order) (\<lambda>bd.
              if global_id \<in> set (keys bd) then Inr (Depth d)
              else bindE (attr g cur_gid coloring_parent) (\<lambda>nxt.
                     get_depth_loop fuel g global_id nxt (d + int (length bd))))))"

definition gr_get_depth :: "nat \<Rightarrow> greedy \<Rightarrow> gid \<Rightarrow> error + depth" where
  "gr_get_depth fuel s global_id =
     (if \<not> gr_contains s global_id then Inr NegInf
      else if global_id \<in> set (antipast s) then Inr (Depth 0)
      else get_depth_loop fuel (G s) global_id (coloring_tip_gid s) 1)"

definition gr_get_virtual_block_parents :: "greedy \<Rightarrow> gid list" where
  "gr_get_virtual_block_parents s = leaves s"

fun readd_all :: "nat \<Rightarrow> pnode digraph \<Rightarrow> greedy \<Rightarrow> gid list \<Rightarrow> error + greedy" where
  "readd_all fuel g new_dag [] = Inr new_dag"
| "readd_all fuel g new_dag (global_id # rest) =
     bindE (attr g global_id block_data) (\<lambda>blk.
     bindE (gr_add fuel new_dag blk) (\<lambda>new_dag1. readd_all fuel g new_dag1 rest))"

definition gr_set_k :: "nat \<Rightarrow> greedy \<Rightarrow> int \<Rightarrow> error + greedy" where
  "gr_set_k fuel s new_k = readd_all fuel (G s) (GreedyPHANTOM_init (Some new_k)) (nodes (G s))"

section \<open>CompetingChainGreedyPHANTOM (competing\_chain\_greedy\_phantom.py)\<close>

text \<open>
  The object is a GreedyPHANTOM (the field \<open>dag\<close>, the combined DAG) with the fields of
  the attack beside it; \<open>honest_dag\<close> is the second GreedyPHANTOM it owns.
\<close>

record competing =
  dag :: greedy
  honest_dag :: greedy
  bluest_honest_block_gid :: "gid option"
  competing_chain_tip_gid :: "gid option"
  currently_attacked_block_gid :: "gid option"
  first_parallel_block_gid :: "gid option"
  competing_chain_tip_antipast :: "gid list"
  virtual_competing_chain_block_parents :: "gid list"
  confirmation_depth :: int
  maximal_depth_difference :: int
  malicious_blocks_to_add_to_honest_dag :: "gid list"

definition CompetingChainGreedyPHANTOM_init :: "int option \<Rightarrow> int \<Rightarrow> int \<Rightarrow> competing" where
  "CompetingChainGreedyPHANTOM_init k_arg conf_depth max_depth_difference =
     \<lparr>dag = GreedyPHANTOM_init k_arg, honest_dag = GreedyPHANTOM_init k_arg,
      bluest_honest_block_gid = None, competing_chain_tip_gid = None,
      currently_attacked_block_gid = None, first_parallel_block_gid = None,
      competing_chain_tip_antipast = [], virtual_competing_chain_block_parents = [],
      confirmation_depth = conf_depth, maximal_depth_difference = max_depth_difference,
      malicious_blocks_to_add_to_honest_dag = []\<rparr>"

definition cc_contains :: "competing \<Rightarrow> gid \<Rightarrow> bool" where
  "cc_contains s global_id = gr_contains (dag s) global_id"

definition did_attack_fail :: "competing \<Rightarrow> bool" where
  "did_attack_fail s =
     (first_parallel_block_gid s = None \<or> currently_attacked_block_gid s = None)"

text \<open>\<open>_add_malicious_blocks_to_honest_dag\<close>: the \<open>while\<close> loop empties the queue.\<close>

fun drain_queue :: "nat \<Rightarrow> pnode digraph \<Rightarrow> greedy \<Rightarrow> gid list \<Rightarrow> error + greedy" where
  "drain_queue fuel g honest [] = Inr honest"
| "drain_queue fuel g honest (global_id # rest) =
     bindE (attr g global_id block_data) (\<lambda>blk.
     bindE (gr_add fuel honest blk) (\<lambda>honest1. drain_queue fuel g honest1 rest))"

definition add_malicious_blocks_to_honest_dag :: "nat \<Rightarrow> competing \<Rightarrow> error + competing" where
  "add_malicious_blocks_to_honest_dag fuel s =
     bindE (drain_queue fuel (G (dag s)) (honest_dag s) (malicious_blocks_to_add_to_honest_dag s))
       (\<lambda>honest. Inr (s\<lparr>honest_dag := honest, malicious_blocks_to_add_to_honest_dag := []\<rparr>))"

text \<open>\<open>_get_competing_chain_tip_parents\<close>: the inner loop over the ancestors, then the
  outer loop over the queue.\<close>

fun remove_ancestors :: "nat \<Rightarrow> pnode digraph \<Rightarrow> gid list \<Rightarrow> gid list \<Rightarrow> gid list \<Rightarrow> gid list
    \<Rightarrow> error + (gid list \<times> gid list)" where
  "remove_ancestors 0 g tip_antipast ancestor_queue visited selfish = Inl OutOfFuel"
| "remove_ancestors (Suc fuel) g tip_antipast ancestor_queue visited selfish =
     (case ancestor_queue of
        [] \<Rightarrow> Inr (visited, selfish)
      | ancestor_gid # rest \<Rightarrow>
          if ancestor_gid \<notin> set tip_antipast
          then remove_ancestors fuel g tip_antipast rest visited selfish
          else bindE (successors g ancestor_gid) (\<lambda>ps.
                 remove_ancestors fuel g tip_antipast (rest @ ps)
                   (set_ior visited [ancestor_gid]) (removeAll ancestor_gid selfish)))"

fun tip_parents_loop :: "nat \<Rightarrow> pnode digraph \<Rightarrow> gid \<Rightarrow> gid list \<Rightarrow> gid list \<Rightarrow> gid list \<Rightarrow> gid list
    \<Rightarrow> error + gid list" where
  "tip_parents_loop 0 g tip_global_id tip_antipast queue visited selfish = Inl OutOfFuel"
| "tip_parents_loop (Suc fuel) g tip_global_id tip_antipast queue visited selfish =
     (case queue of
        [] \<Rightarrow> Inr selfish
      | gid # rest \<Rightarrow>
          if gid \<in> set visited \<or> gid \<notin> set tip_antipast
          then tip_parents_loop fuel g tip_global_id tip_antipast rest visited selfish
          else
            bindE (is_a_bluer_than_b g tip_global_id gid) (\<lambda>bluer.
              if bluer
              then bindE (successors g gid) (\<lambda>ps.
                   bindE (remove_ancestors (Suc fuel) g tip_antipast ps (set_ior visited [gid])
                            (set_ior selfish [gid])) (\<lambda>(visited1, selfish1).
                     tip_parents_loop fuel g tip_global_id tip_antipast rest visited1 selfish1))
              else bindE (predecessors g gid) (\<lambda>cs.
                     tip_parents_loop fuel g tip_global_id tip_antipast (rest @ cs)
                       (set_ior visited [gid]) selfish)))"

definition get_competing_chain_tip_parents :: "nat \<Rightarrow> competing \<Rightarrow> gid \<Rightarrow> gid list \<Rightarrow> gid list
    \<Rightarrow> error + gid list" where
  "get_competing_chain_tip_parents fuel s tip_global_id tip_antipast initial_parents =
     tip_parents_loop fuel (G (dag s)) tip_global_id tip_antipast (leaves (dag s))
       (remdups initial_parents) (remdups initial_parents)"

definition depth_ge :: "depth \<Rightarrow> int \<Rightarrow> bool" where
  "depth_ge d c = (case d of NegInf \<Rightarrow> False | Depth v \<Rightarrow> v \<ge> c)"

text \<open>
  \<open>did_attack_succeed\<close> returns \<open>False\<close>, or the value of the \<open>and\<close> chain: \<open>False\<close> from a
  depth test, or the tri-valued answer of \<open>is_a_before_b\<close>. The query \<open>is_a_before_b\<close> may
  colour and order the antipast of the combined DAG, so the new state is returned too.
\<close>

definition did_attack_succeed :: "nat \<Rightarrow> competing \<Rightarrow> error + (bool option \<times> competing)" where
  "did_attack_succeed fuel s =
     (if did_attack_fail s then Inr (Some False, s)
      else
        (case (first_parallel_block_gid s, currently_attacked_block_gid s) of
           (Some first_parallel, Some attacked) \<Rightarrow>
             bindE (gr_get_depth fuel (dag s) first_parallel) (\<lambda>d1.
               if \<not> depth_ge d1 (confirmation_depth s) then Inr (Some False, s)
               else bindE (gr_get_depth fuel (honest_dag s) attacked) (\<lambda>d2.
                 if \<not> depth_ge d2 (confirmation_depth s) then Inr (Some False, s)
                 else bindE (gr_is_a_before_b fuel (dag s) first_parallel attacked) (\<lambda>(r, dag1).
                        Inr (r, s\<lparr>dag := dag1\<rparr>))))
         | _ \<Rightarrow> Inr (Some False, s)))"

definition stop_attack :: "nat \<Rightarrow> competing \<Rightarrow> error + competing" where
  "stop_attack fuel s =
     bindE (add_malicious_blocks_to_honest_dag fuel s) (\<lambda>s1.
       Inr (s1\<lparr>competing_chain_tip_gid := None, first_parallel_block_gid := None\<rparr>))"

definition is_attack_viable :: "competing \<Rightarrow> error + bool" where
  "is_attack_viable s =
     (if did_attack_fail s then Inr True
      else
        (case coloring_tip_gid (dag s) of
           None \<Rightarrow> Inl KeyError
         | Some tip \<Rightarrow>
             bindE (attr (G (dag s)) tip blue_number) (\<lambda>tip_blue.
               (case competing_chain_tip_gid s of
                  None \<Rightarrow> Inl KeyError
                | Some ctip \<Rightarrow>
                    bindE (attr (G (dag s)) ctip blue_number) (\<lambda>ctip_blue.
                      Inr (tip_blue - ctip_blue \<le> maximal_depth_difference s))))))"



text \<open>
  \<open>add\<close>: the two branches on \<open>is_malicious\<close>, the final update during an attack
  (the statement \<open>if not self.did_attack_fail()\<close> and its body), and the whole method.
\<close>

definition add_malicious_part :: "nat \<Rightarrow> competing \<Rightarrow> block \<Rightarrow> error + competing" where
  "add_malicious_part fuel s b =
     (let global_id = hash b;
          s1 = s\<lparr>malicious_blocks_to_add_to_honest_dag :=
                   malicious_blocks_to_add_to_honest_dag s @ [global_id]\<rparr>;
          s2 = (if did_attack_fail s1 then s1\<lparr>first_parallel_block_gid := Some global_id\<rparr> else s1);
          s3 = s2\<lparr>competing_chain_tip_gid := Some global_id\<rparr>
      in bindE (attr (G (dag s3)) global_id blue_diff_past_order) (\<lambda>bd.
         bindE (attr (G (dag s3)) global_id red_diff_past_order) (\<lambda>rd.
           (let s4 = s3\<lparr>competing_chain_tip_antipast :=
                         set_isub (set_isub (competing_chain_tip_antipast s3) (keys bd)) (keys rd)\<rparr>
            in bindE (get_competing_chain_tip_parents fuel s4 global_id
                        (competing_chain_tip_antipast s4) (get_parents b)) (\<lambda>ps.
                 Inr (s4\<lparr>virtual_competing_chain_block_parents := ps\<rparr>))))))"

definition add_honest_part :: "nat \<Rightarrow> competing \<Rightarrow> block \<Rightarrow> error + competing" where
  "add_honest_part fuel s b =
     bindE (if did_attack_fail s then add_malicious_blocks_to_honest_dag fuel s else Inr s) (\<lambda>s1.
     bindE (gr_add fuel (honest_dag s1) b) (\<lambda>honest. Inr (s1\<lparr>honest_dag := honest\<rparr>)))"

definition add_attack_update :: "nat \<Rightarrow> competing \<Rightarrow> block \<Rightarrow> error + competing" where
  "add_attack_update fuel s b =
     (let global_id = hash b
      in if did_attack_fail s then Inr s
         else
           (let s1 = s\<lparr>competing_chain_tip_antipast :=
                         set_ior (competing_chain_tip_antipast s) [global_id]\<rparr>
            in bindE (if Some global_id = competing_chain_tip_gid s1 then Inr True
                      else (case competing_chain_tip_gid s1 of
                              None \<Rightarrow> Inl KeyError
                            | Some ctip \<Rightarrow> is_a_bluer_than_b (G (dag s1)) ctip global_id))
                 (\<lambda>tip_is_bluest.
                    if tip_is_bluest
                    then Inr (s1\<lparr>virtual_competing_chain_block_parents :=
                                  set_ior (set_isub (virtual_competing_chain_block_parents s1)
                                             (get_parents b)) [global_id]\<rparr>)
                    else bindE (is_attack_viable s1) (\<lambda>viable.
                           if \<not> viable then stop_attack fuel s1 else Inr s1))))"

definition add_before_attack_update :: "nat \<Rightarrow> competing \<Rightarrow> block \<Rightarrow> bool \<Rightarrow> error + competing" where
  \<comment> \<open>\<open>add\<close> up to the statement \<open>if not self.did_attack_fail()\<close>\<close>
  "add_before_attack_update fuel s b is_malicious =
     bindE (gr_add fuel (dag s) b) (\<lambda>dag1.
     bindE (if is_malicious then add_malicious_part fuel (s\<lparr>dag := dag1\<rparr>) b
            else add_honest_part fuel (s\<lparr>dag := dag1\<rparr>) b) (\<lambda>s1.
     bindE (did_attack_succeed fuel s1) (\<lambda>(succeeded, s2).
       if succeeded = Some True then add_malicious_blocks_to_honest_dag fuel s2 else Inr s2)))"

definition cc_add :: "nat \<Rightarrow> competing \<Rightarrow> block \<Rightarrow> bool \<Rightarrow> error + competing" where
  "cc_add fuel s b is_malicious =
     bindE (add_before_attack_update fuel s b is_malicious) (\<lambda>s3. add_attack_update fuel s3 b)"

fun cc_adds :: "nat \<Rightarrow> competing \<Rightarrow> (block \<times> bool) list \<Rightarrow> error + competing" where
  "cc_adds fuel s [] = Inr s"
| "cc_adds fuel s ((b, is_malicious) # rest) =
     bindE (cc_add fuel s b is_malicious) (\<lambda>s'. cc_adds fuel s' rest)"

section \<open>Concrete blocks and runs\<close>

definition blk :: "gid \<Rightarrow> gid list \<Rightarrow> block" where
  "blk i ps = \<lparr>block_gid = i, block_parents = ps\<rparr>"

definition attack_start :: competing where
  "attack_start = CompetingChainGreedyPHANTOM_init (Some 4) 1 0"


definition fork_state :: "error + greedy" where
  "fork_state = gr_adds 50 (GreedyPHANTOM_init (Some 4)) [blk 9 [], blk 7 [9], blk 8 [9]]"








definition nodes_of :: "phantom \<Rightarrow> gid list" where
  "nodes_of s = nodes (G s)"

text \<open>A genesis block with three children, coloured with \<open>k = 1\<close> by both engines.\<close>

definition star_blocks :: "block list" where
  "star_blocks = [blk 0 [], blk 1 [0], blk 2 [0], blk 3 [0]]"

definition greedy_star :: "error + greedy" where
  "greedy_star = gr_adds 50 (GreedyPHANTOM_init (Some 1)) star_blocks"

definition greedy_star_coloring :: "error + (gid list \<times> nat)" where
  "greedy_star_coloring =
     bindE greedy_star (\<lambda>s.
     bindE (gr_get_coloring 50 s) (\<lambda>(col, s1). Inr (col, blue_in_anticone (G s1) col 1)))"

definition brute_force_star :: "error + phantom" where
  "brute_force_star = ph_adds 50 (PHANTOM_init (Some 1)) star_blocks"

section \<open>LazySet: agreement with the reference evaluation\<close>

lemma set_set_ior: "set (set_ior xs ys) = set xs \<union> set ys"
  by (auto simp: set_ior_def)

lemma set_set_isub: "set (set_isub xs ys) = set xs - set ys"
  by (auto simp: set_isub_def)

lemma reference_loop_append:
  "reference_loop h pos acc (ixs @ jxs) = reference_loop h pos (reference_loop h pos acc ixs) jxs"
  by (induction ixs arbitrary: acc) auto

lemma reference_loop_cong:
  "(\<And>a. a \<in> snd ` set ixs \<Longrightarrow> cells h a = cells h' a) \<Longrightarrow>
   reference_loop h pos acc ixs = reference_loop h' pos acc ixs"
proof (induction ixs arbitrary: acc)
  case Nil
  then show ?case by simp
next
  case (Cons p ixs)
  obtain i a where p: "p = (i, a)" by (cases p)
  have "cells h a = cells h' a" using Cons.prems p by force
  moreover have "\<And>acc. reference_loop h pos acc ixs = reference_loop h' pos acc ixs"
    using Cons.IH Cons.prems by force
  ultimately show ?case by (simp add: p)
qed

lemma rev_enumerate_rev:
  "map (\<lambda>(i, a). (length xs - Suc i, a)) (enumerate 0 (rev xs)) = rev (enumerate 0 xs)"
proof (induction xs rule: rev_induct)
  case Nil
  then show ?case by simp
next
  case (snoc x xs)
  have "map (\<lambda>(i, a). (length (xs @ [x]) - Suc i, a)) (enumerate (Suc 0) (rev xs))
        = map (\<lambda>(i, a). (length xs - Suc i, a)) (enumerate 0 (rev xs))"
    by (simp add: enumerate_Suc_eq split_def)
  then show ?case using snoc by (simp add: enumerate_append_eq)
qed

lemma contains_loop_reference:
  "contains_loop h pos n item ixs
     = (item \<in> reference_loop h pos {} (rev (map (\<lambda>(i, a). (n - Suc i, a)) ixs)))"
proof (induction ixs)
  case Nil
  then show ?case by simp
next
  case (Cons p ixs)
  obtain i a where p: "p = (i, a)" by (cases p)
  have A: "contains_loop h pos n item ((i, a) # ixs)
           = (if item \<in> set (cells h a) then (n - Suc i) \<in> pos else contains_loop h pos n item ixs)"
    by simp
  have B: "(item \<in> reference_loop h pos {} (rev (map (\<lambda>(i, a). (n - Suc i, a)) ((i, a) # ixs))))
           = (if item \<in> set (cells h a) then (n - Suc i) \<in> pos
              else item \<in> reference_loop h pos {} (rev (map (\<lambda>(i, a). (n - Suc i, a)) ixs)))"
    by (simp add: reference_loop_append)
  show ?case unfolding p A B using Cons.IH by simp
qed

lemma contains_reference: "contains h L item = (item \<in> reference_set h L)"
  by (simp add: contains_def reference_set_def contains_loop_reference rev_enumerate_rev)

lemma iter_layer_props:
  "iter_layer dny xs = (d, ys) \<Longrightarrow> d = dny \<union> set xs \<and> set ys = set xs - dny \<and> distinct ys"
proof (induction xs arbitrary: dny d ys)
  case Nil
  then show ?case by simp
next
  case (Cons x xs)
  show ?case
  proof (cases "x \<in> dny")
    case True
    then show ?thesis using Cons by auto
  next
    case False
    obtain d' ys' where r: "iter_layer (insert x dny) xs = (d', ys')" by fastforce
    from Cons.IH[OF r] have "d' = insert x dny \<union> set xs" "set ys' = set xs - insert x dny" "distinct ys'"
      by auto
    moreover have "d = d'" "ys = x # ys'" using Cons.prems False r by auto
    ultimately show ?thesis using False by auto
  qed
qed

lemma iter_loop_reference:
  "set (iter_loop h pos n dny ixs)
     = reference_loop h pos {} (rev (map (\<lambda>(i, a). (n - Suc i, a)) ixs)) - dny
   \<and> distinct (iter_loop h pos n dny ixs)"
proof (induction ixs arbitrary: dny)
  case Nil
  then show ?case by simp
next
  case (Cons p ixs)
  obtain i a where p: "p = (i, a)" by (cases p)
  let ?R = "reference_loop h pos {} (rev (map (\<lambda>(i, a). (n - Suc i, a)) ixs))"
  show ?case
  proof (cases "(n - i - 1) \<in> pos")
    case False
    then show ?thesis using Cons.IH[of "dny \<union> set (cells h a)"]
      by (auto simp: p reference_loop_append)
  next
    case True
    obtain d ys where r: "iter_layer dny (cells h a) = (d, ys)" by fastforce
    note lp = iter_layer_props[OF r]
    have ih: "set (iter_loop h pos n d ixs) = ?R - d" "distinct (iter_loop h pos n d ixs)"
      using Cons.IH[of d] by auto
    have "set (ys @ iter_loop h pos n d ixs) = (?R \<union> set (cells h a)) - dny"
      using lp ih by auto
    moreover have "distinct (ys @ iter_loop h pos n d ixs)"
      using lp ih by auto
    ultimately show ?thesis using True r by (simp add: p reference_loop_append)
  qed
qed

lemma iter_reference: "set (iter h L) = reference_set h L \<and> distinct (iter h L)"
  using iter_loop_reference[of h "positive_indices L" "length (sets L)" "{}" "enumerate 0 (rev (sets L))"]
  by (simp add: iter_def reference_set_def rev_enumerate_rev)

lemma length_flatten_loop: "length (flatten_loop pos base h ixs) = length h"
  by (induction ixs arbitrary: h) (auto simp: store_def)

lemma flatten_loop_other:
  "a \<noteq> base \<Longrightarrow> cells (flatten_loop pos base h ixs) a = cells h a"
  by (induction ixs arbitrary: h) (auto simp: store_def cells_def)

lemma flatten_loop_base:
  "base \<notin> snd ` set ixs \<Longrightarrow> base < length h \<Longrightarrow>
   set (cells (flatten_loop pos base h ixs) base) = reference_loop h pos (set (cells h base)) ixs"
proof (induction ixs arbitrary: h)
  case Nil
  then show ?case by simp
next
  case (Cons p ixs)
  obtain i a where p: "p = (i, a)" by (cases p)
  let ?h = "store h base
            (if i \<in> pos then set_ior (cells h base) (cells h a)
             else set_isub (cells h base) (cells h a))"
  have nb: "base \<notin> snd ` set ixs" using Cons.prems by auto
  have len: "base < length ?h" using Cons.prems by (simp add: store_def)
  have "set (cells (flatten_loop pos base ?h ixs) base) = reference_loop ?h pos (set (cells ?h base)) ixs"
    using Cons.IH[OF nb len] .
  also have "\<dots> = reference_loop h pos (set (cells ?h base)) ixs"
  proof (rule reference_loop_cong)
    fix b assume "b \<in> snd ` set ixs"
    then have "b \<noteq> base" using nb by blast
    then show "cells ?h b = cells h b" by (simp add: store_def cells_def)
  qed
  finally show ?case using Cons.prems(2) by (simp add: p set_set_ior set_set_isub store_def cells_def)
qed

lemma reference_loop_negative_prefix:
  "(\<And>i a. (i, a) \<in> set ixs \<Longrightarrow> i \<notin> pos) \<Longrightarrow> reference_loop h pos {} ixs = {}"
proof (induction ixs)
  case Nil
  then show ?case by simp
next
  case (Cons p ixs)
  obtain i a where p: "p = (i, a)" by (cases p)
  have "i \<notin> pos" using Cons.prems[of i a] p by simp
  moreover have "reference_loop h pos {} ixs = {}"
    by (rule Cons.IH) (use Cons.prems in auto)
  ultimately show ?case by (simp add: p)
qed

lemma base_set_index_Some:
  "base_set_index L = Some i \<Longrightarrow>
   i < length (sets L) \<and> i \<in> positive_indices L \<and> (\<forall>j<i. j \<notin> positive_indices L)"
  unfolding base_set_index_def find_Some_iff by auto

lemma base_set_index_None:
  "base_set_index L = None \<Longrightarrow> (\<forall>j<length (sets L). j \<notin> positive_indices L)"
  unfolding base_set_index_def find_None_iff by auto

lemma reference_set_split:
  assumes "base_set_index L = Some i"
  shows "reference_set h L
         = reference_loop h (positive_indices L) (set (cells h (sets L ! i)))
             (drop (Suc i) (enumerate 0 (sets L)))"
proof -
  note b = base_set_index_Some[OF assms]
  let ?e = "enumerate 0 (sets L)"
  have il: "i < length ?e" using b by simp
  have e: "?e = take i ?e @ (i, sets L ! i) # drop (Suc i) ?e"
    using id_take_nth_drop[OF il] b by (simp add: nth_enumerate_eq)
  have neg: "reference_loop h (positive_indices L) {} (take i ?e) = {}"
  proof (rule reference_loop_negative_prefix)
    fix j a assume "(j, a) \<in> set (take i ?e)"
    then obtain k where "k < length (take i ?e)" "take i ?e ! k = (j, a)"
      by (auto simp: in_set_conv_nth)
    then have "j < i" using il by (simp add: nth_enumerate_eq)
    then show "j \<notin> positive_indices L" using b by simp
  qed
  have "reference_set h L = reference_loop h (positive_indices L) {} (take i ?e @ (i, sets L ! i) # drop (Suc i) ?e)"
    unfolding reference_set_def using e by simp
  then show ?thesis using neg b by (simp add: reference_loop_append)
qed

lemma snd_set_enumerate: "snd ` set (enumerate n xs) = set xs"
  using map_snd_enumerate[of n xs] by (metis set_map)

lemma flatten_to_set_copy:
  assumes ok: "heap_ok h L" and f: "flatten_to_set h L False = (h', L', r)"
  shows "set (cells h' r) = reference_set h L \<and> reference_set h' L' = reference_set h L
         \<and> (\<forall>a \<in> set (sets L). cells h' a = cells h a)"
proof (cases "base_set_index L")
  case None
  note n = base_set_index_None[OF None]
  have ref: "reference_set h L = {}"
    unfolding reference_set_def
    by (rule reference_loop_negative_prefix) (use n in \<open>auto simp: in_set_enumerate_eq\<close>)
  have r: "r = length h" "L' = L" "h' = h @ [[]]"
    using f None by (auto simp: flatten_to_set_def alloc_def next_free_def)
  have same: "\<forall>a \<in> set (sets L). cells h' a = cells h a"
    using ok r by (auto simp: heap_ok_def cells_def next_free_def nth_append)
  have "reference_set h' L' = reference_set h L"
    unfolding reference_set_def r(2)
    by (rule reference_loop_cong) (use same in \<open>simp add: snd_set_enumerate\<close>)
  then show ?thesis using r ref same by (simp add: cells_def)
next
  case (Some i)
  note b = base_set_index_Some[OF Some]
  let ?pos = "positive_indices L"
  let ?base = "length h"
  let ?h1 = "h @ [cells h (sets L ! i)]"
  let ?rest = "drop (Suc i) (enumerate 0 (sets L))"
  let ?h2 = "flatten_loop ?pos ?base ?h1 ?rest"
  have r: "r = ?base" "h' = ?h2" "L' = lazy_update ?h2 (clear L) ?base"
    using f Some by (auto simp: flatten_to_set_def alloc_def Let_def next_free_def)
  have fresh: "?base \<notin> set (sets L)" using ok by (auto simp: heap_ok_def next_free_def)
  have nb: "?base \<notin> snd ` set ?rest"
  proof
    assume "?base \<in> snd ` set ?rest"
    then have "?base \<in> snd ` set (enumerate 0 (sets L))" by (auto dest: in_set_dropD)
    then show False using fresh by (simp add: snd_set_enumerate)
  qed
  have old: "\<And>a. a \<noteq> ?base \<Longrightarrow> a < length h \<Longrightarrow> cells ?h1 a = cells h a"
    by (simp add: cells_def nth_append)
  have inr: "\<And>a. a \<in> set (sets L) \<Longrightarrow> a < length h"
    using ok by (auto simp: heap_ok_def next_free_def)
  have "set (cells ?h2 ?base) = reference_loop ?h1 ?pos (set (cells ?h1 ?base)) ?rest"
    by (rule flatten_loop_base[OF nb]) simp
  also have "\<dots> = reference_loop h ?pos (set (cells ?h1 ?base)) ?rest"
  proof (rule reference_loop_cong)
    fix a assume a: "a \<in> snd ` set ?rest"
    then have "a \<in> snd ` set (enumerate 0 (sets L))" by (auto dest: in_set_dropD)
    then have "a \<in> set (sets L)" by (simp add: snd_set_enumerate)
    then show "cells ?h1 a = cells h a" using inr[of a] by (simp add: cells_def nth_append)
  qed
  also have "\<dots> = reference_set h L"
    using reference_set_split[OF Some, of h] by (simp add: cells_def)
  finally have res: "set (cells ?h2 ?base) = reference_set h L" .
  have same: "\<forall>a \<in> set (sets L). cells ?h2 a = cells h a"
  proof
    fix a assume a: "a \<in> set (sets L)"
    then have ne: "a \<noteq> ?base" using fresh by auto
    show "cells ?h2 a = cells h a"
      using flatten_loop_other[OF ne, of ?pos ?h1 ?rest] old[OF ne inr[OF a]] by simp
  qed
  have "reference_set ?h2 (lazy_update ?h2 (clear L) ?base) = set (cells ?h2 ?base)"
    by (auto simp: reference_set_def lazy_update_def clear_def)
  then show ?thesis using r res same by simp
qed

lemma snd_set_drop_enumerate: "snd ` set (drop m (enumerate n xs)) = set (drop m xs)"
proof -
  have "map snd (drop m (enumerate n xs)) = drop m xs"
    by (simp add: drop_map[symmetric])
  then show ?thesis by (metis set_map)
qed

lemma flatten_to_set_in_place:
  assumes ok: "heap_ok h L" and f: "flatten_to_set h L True = (h', L', r)"
    and un: "first_positive_unshared L"
  shows "set (cells h' r) = reference_set h L \<and> reference_set h' L' = reference_set h L"
proof (cases "base_set_index L")
  case None
  note n = base_set_index_None[OF None]
  have ref: "reference_set h L = {}"
    unfolding reference_set_def
    by (rule reference_loop_negative_prefix) (use n in \<open>auto simp: in_set_enumerate_eq\<close>)
  have r: "r = length h" "L' = L" "h' = h @ [[]]"
    using f None by (auto simp: flatten_to_set_def alloc_def next_free_def)
  have same: "\<forall>a \<in> set (sets L). cells h' a = cells h a"
    using ok r by (auto simp: heap_ok_def cells_def next_free_def nth_append)
  have "reference_set h' L' = reference_set h L"
    unfolding reference_set_def r(2)
    by (rule reference_loop_cong) (use same in \<open>simp add: snd_set_enumerate\<close>)
  then show ?thesis using r ref by (simp add: cells_def)
next
  case (Some i)
  note b = base_set_index_Some[OF Some]
  let ?pos = "positive_indices L"
  let ?base = "sets L ! i"
  let ?rest = "drop (Suc i) (enumerate 0 (sets L))"
  let ?h2 = "flatten_loop ?pos ?base h ?rest"
  have r: "r = ?base" "h' = ?h2" "L' = lazy_update ?h2 (clear L) ?base"
    using f Some by (auto simp: flatten_to_set_def Let_def)
  have nb: "?base \<notin> snd ` set ?rest"
    using un Some by (simp add: first_positive_unshared_def snd_set_drop_enumerate)
  have len: "?base < length h"
    using ok b by (auto simp: heap_ok_def next_free_def)
  have "set (cells ?h2 ?base) = reference_loop h ?pos (set (cells h ?base)) ?rest"
    by (rule flatten_loop_base[OF nb len])
  also have "\<dots> = reference_set h L"
    using reference_set_split[OF Some, of h] by simp
  finally have res: "set (cells ?h2 ?base) = reference_set h L" .
  have "reference_set ?h2 (lazy_update ?h2 (clear L) ?base) = set (cells ?h2 ?base)"
    by (auto simp: reference_set_def lazy_update_def clear_def)
  then show ?thesis using r res by simp
qed

lemma example_lazy_set_eq: "example_lazy_set = \<lparr>sets = [0, 1, 2], positive_indices = {0, 2}\<rparr>"
  by (simp add: example_lazy_set_def example_heap_def lazy_update_def lazy_difference_update_def
      LazySet_new_def insert_commute numeral_2_eq_2 cells_def)

lemma example_reference: "reference_set example_heap example_lazy_set = {1, 3, 4}"
  by (auto simp: example_lazy_set_eq reference_set_def example_heap_def cells_def)

lemma flatten_to_set_layers:
  assumes "base_set_index L = Some i" and "flatten_to_set h L modify = (h', L', r)"
  shows "if cells h' r = [] then sets L' = [] \<and> positive_indices L' = {}
         else sets L' = [r] \<and> positive_indices L' = {0}"
  using assms
  by (auto simp: flatten_to_set_def Let_def lazy_update_def clear_def split: prod.splits if_splits)

text \<open>
  C5 (as amended). For a LazySet whose layers are allocated set objects, \<open>flatten\<close>
  returns a set equal to the reference evaluation of the layers in list order and leaves
  the LazySet denoting that same set: always with \<open>modify=False\<close>, and with \<open>modify=True\<close>
  whenever the set object of the first positive layer is not also a later layer. Before
  flattening, \<open>__contains__\<close> agrees with the reference set, and \<open>__iter__\<close> yields
  exactly its elements, each once.
\<close>

theorem C5_lazy_set_agrees_with_reference:
  "heap_ok h L \<Longrightarrow> (modify \<longrightarrow> first_positive_unshared L) \<Longrightarrow>
   (case flatten_to_set h L modify of
      (h', L', r) \<Rightarrow>
        flatten h L modify = (h', L')
        \<and> set (cells h' r) = reference_set h L \<and> reference_set h' L' = reference_set h L)
   \<and> (\<forall>x. contains h L x = (x \<in> reference_set h L))
   \<and> set (iter h L) = reference_set h L
   \<and> distinct (iter h L)"
proof -
  assume ok: "heap_ok h L" and un: "modify \<longrightarrow> first_positive_unshared L"
  obtain h' L' r where f: "flatten_to_set h L modify = (h', L', r)"
    by (cases "flatten_to_set h L modify") auto
  have "set (cells h' r) = reference_set h L \<and> reference_set h' L' = reference_set h L"
  proof (cases modify)
    case True
    then show ?thesis using flatten_to_set_in_place[OF ok _ ] f un by simp
  next
    case False
    then show ?thesis using flatten_to_set_copy[OF ok] f by simp
  qed
  then show ?thesis
    using f contains_reference[of h L] iter_reference[of h L] by (simp add: flatten_def)
qed

lemma shared_lazy_set_eq: "shared_lazy_set = \<lparr>sets = [0, 1, 0], positive_indices = {0, 2}\<rparr>"
  by (simp add: shared_lazy_set_def shared_heap_def lazy_update_def lazy_difference_update_def
      LazySet_new_def insert_commute numeral_2_eq_2 cells_def)

theorem C5_lazy_set_agrees_with_reference_witness:
  "heap_ok example_heap example_lazy_set \<and> first_positive_unshared example_lazy_set
   \<and> set (iter example_heap example_lazy_set) = {1, 3, 4}
   \<and> contains example_heap example_lazy_set 3
   \<and> \<not> contains example_heap example_lazy_set 2
   \<and> (case flatten_to_set example_heap example_lazy_set True of
        (h', L', r) \<Rightarrow> r = 0 \<and> set (cells h' r) = {1, 3, 4} \<and> reference_set h' L' = {1, 3, 4})
   \<and> (case flatten_to_set example_heap example_lazy_set False of
        (h', L', r) \<Rightarrow> r = 3 \<and> set (cells h' r) = {1, 3, 4} \<and> reference_set h' L' = {1, 3, 4})"
proof -
  have ok: "heap_ok example_heap example_lazy_set"
    by (simp add: heap_ok_def example_lazy_set_eq example_heap_def next_free_def)
  have un: "first_positive_unshared example_lazy_set"
    by (simp add: first_positive_unshared_def base_set_index_def example_lazy_set_eq upt_rec)
  have r1: "snd (snd (flatten_to_set example_heap example_lazy_set True)) = 0"
    by (simp add: flatten_to_set_def base_set_index_def example_lazy_set_eq upt_rec Let_def)
  have r2: "snd (snd (flatten_to_set example_heap example_lazy_set False)) = 3"
    by (simp add: flatten_to_set_def base_set_index_def example_lazy_set_eq upt_rec Let_def
        alloc_def next_free_def example_heap_def)
  show ?thesis
    using C5_lazy_set_agrees_with_reference[OF ok, of True]
      C5_lazy_set_agrees_with_reference[OF ok, of False] ok un r1 r2
    by (simp add: example_reference split_def)
qed

theorem C5_flatten_in_place_counterexample:
  "heap_ok shared_heap shared_lazy_set
   \<and> reference_set shared_heap shared_lazy_set = {1, 2}
   \<and> (case flatten_to_set shared_heap shared_lazy_set True of
        (h', L', r) \<Rightarrow> cells h' r = [2] \<and> reference_set h' L' = {2})"
  by (auto simp: shared_lazy_set_eq shared_heap_def heap_ok_def next_free_def reference_set_def
      flatten_to_set_def base_set_index_def upt_rec Let_def cells_def store_def set_ior_def
      set_isub_def lazy_update_def clear_def)

text \<open>
  C6 (as amended). Immediately after \<open>flatten\<close> (with either value of \<open>modify\<close>): when the
  LazySet had no positive layer, its layers are what they were and the returned set is
  empty; otherwise it has no negative layer, and it consists of exactly one positive
  layer, the returned set, when that set is not empty, and of no layer at all when it is
  empty.
\<close>

theorem C6_flatten_leaves_at_most_one_positive_layer:
  "(case flatten_to_set h L modify of
      (h', L', r) \<Rightarrow>
        flatten h L modify = (h', L')
        \<and> (if \<forall>i<length (sets L). i \<notin> positive_indices L then L' = L \<and> cells h' r = []
            else if cells h' r = [] then sets L' = [] \<and> positive_indices L' = {}
            else sets L' = [r] \<and> positive_indices L' = {0}))"
proof -
  obtain h' L' r where f: "flatten_to_set h L modify = (h', L', r)"
    by (cases "flatten_to_set h L modify") auto
  show ?thesis
  proof (cases "base_set_index L")
    case None
    then have "\<forall>i<length (sets L). i \<notin> positive_indices L"
      by (rule base_set_index_None)
    moreover have "L' = L \<and> cells h' r = []"
      using f None by (auto simp: flatten_to_set_def alloc_def next_free_def cells_def)
    ultimately show ?thesis using f by (simp add: flatten_def)
  next
    case (Some i)
    then have ex: "\<not> (\<forall>i<length (sets L). i \<notin> positive_indices L)"
      using base_set_index_Some[OF Some] by auto
    show ?thesis
      unfolding f flatten_def using flatten_to_set_layers[OF Some f] ex by (simp only: split if_False simp_thms)
  qed
qed

theorem C6_flatten_leaves_at_most_one_positive_layer_witness:
  "flatten_to_set example_heap example_lazy_set True
       = ([[1, 3, 4], [2, 3], [3, 4]], \<lparr>sets = [0], positive_indices = {0}\<rparr>, 0)
   \<and> flatten example_heap example_lazy_set True
       = ([[1, 3, 4], [2, 3], [3, 4]], \<lparr>sets = [0], positive_indices = {0}\<rparr>)
   \<and> flatten example_heap negative_only_lazy_set True
       = (example_heap @ [[]], negative_only_lazy_set)"
proof -
  have a: "flatten_to_set example_heap example_lazy_set True
       = ([[1, 3, 4], [2, 3], [3, 4]], \<lparr>sets = [0], positive_indices = {0}\<rparr>, 0)"
    by (simp add: example_lazy_set_eq flatten_to_set_def base_set_index_def example_heap_def
        set_ior_def set_isub_def lazy_update_def clear_def Let_def upt_rec store_def cells_def)
  have n: "negative_only_lazy_set = \<lparr>sets = [0], positive_indices = {}\<rparr>"
    by (simp add: negative_only_lazy_set_def lazy_difference_update_def LazySet_new_def
        example_heap_def cells_def)
  have b: "flatten_to_set example_heap negative_only_lazy_set True
       = (example_heap @ [[]], negative_only_lazy_set, 3)"
    by (simp add: n flatten_to_set_def base_set_index_def alloc_def next_free_def upt_rec
        example_heap_def)
  show ?thesis
    using C6_flatten_leaves_at_most_one_positive_layer[of example_heap example_lazy_set True]
      C6_flatten_leaves_at_most_one_positive_layer[of example_heap negative_only_lazy_set True]
      a b
    by simp
qed

theorem C6_flatten_one_positive_layer_counterexample:
  "sets cancelling_lazy_set = [1, 0] \<and> positive_indices cancelling_lazy_set = {0}
   \<and> sets (snd (flatten example_heap cancelling_lazy_set False)) = []
   \<and> sets (snd (flatten example_heap cancelling_lazy_set True)) = []
   \<and> sets (snd (flatten example_heap LazySet_new False)) = []
   \<and> sets negative_only_lazy_set = [0] \<and> positive_indices negative_only_lazy_set = {}
   \<and> snd (flatten example_heap negative_only_lazy_set False) = negative_only_lazy_set
   \<and> snd (flatten example_heap negative_only_lazy_set True) = negative_only_lazy_set"
  by (simp add: cancelling_lazy_set_def negative_only_lazy_set_def flatten_def flatten_to_set_def
      base_set_index_def
      example_heap_def set_ior_def set_isub_def lazy_update_def lazy_difference_update_def
      clear_def LazySet_new_def alloc_def Let_def upt_rec store_def cells_def next_free_def)

section \<open>The graph: nodes and attributes under the updates\<close>

lemma map_fst_map_entry: "map fst (AList.map_entry n f xs) = map fst xs"
  by (induction xs) auto

lemma nodes_set_attrs [simp]: "nodes (set_attrs g n f) = nodes g"
  by (simp add: nodes_def set_attrs_def map_fst_map_entry)

lemma adj_set_attrs [simp]: "adj (set_attrs g n f) = adj g" "pred_adj (set_attrs g n f) = pred_adj g"
  by (simp_all add: set_attrs_def)

lemma has_node_set_attrs [simp]: "has_node (set_attrs g n f) m = has_node g m"
  by (simp add: has_node_def)

lemma succs_set_attrs [simp]: "succs (set_attrs g n f) = succs g" "preds (set_attrs g n f) = preds g"
  by (auto simp: succs_def preds_def fun_eq_iff)

lemma successors_set_attrs [simp]: "successors (set_attrs g n f) m = successors g m"
  by (simp add: successors_def)

lemma attr_set_attrs_other: "m \<noteq> n \<Longrightarrow> attr (set_attrs g n f) m key = attr g m key"
  by (simp add: attr_def set_attrs_def map_of_map_entry)

lemma attr_set_attrs_same_field:
  "(\<And>a. key (f a) = key a) \<Longrightarrow> attr (set_attrs g n f) m key = attr g m key"
  by (auto simp: attr_def set_attrs_def map_of_map_entry split: option.splits)

lemma has_node_map_of: "has_node g n \<longleftrightarrow> map_of (node_attrs g) n \<noteq> None"
  by (simp add: has_node_def nodes_def map_of_eq_None_iff)

lemma attr_set_attrs_written:
  "has_node g n \<Longrightarrow> (\<And>a. key (f a) = Some v) \<Longrightarrow> attr (set_attrs g n f) n key = Inr v"
  by (auto simp: has_node_map_of attr_def set_attrs_def map_of_map_entry)

lemma nodes_add_node: "set (nodes (add_node e g n)) = insert n (set (nodes g))"
  by (auto simp: add_node_def nodes_def has_node_def)

lemma map_of_node_attrs_add_node:
  "map_of (node_attrs (add_node e g n)) m
     = (if has_node g n then map_of (node_attrs g) m
        else if m = n then Some e else map_of (node_attrs g) m)"
  by (auto simp: add_node_def map_of_append map_add_def has_node_map_of split: option.splits)

lemma nodes_add_edge: "set (nodes (add_edge e g u v)) = insert u (insert v (set (nodes g)))"
proof -
  have "nodes (add_edge e g u v) = nodes (add_node e (add_node e g u) v)"
    by (simp add: add_edge_def Let_def nodes_def)
  then show ?thesis by (auto simp: nodes_add_node)
qed

lemma node_attrs_add_edge:
  "node_attrs (add_edge e g u v) = node_attrs (add_node e (add_node e g u) v)"
  by (simp add: add_edge_def Let_def)

section \<open>\<open>max\<close> over sorted ids\<close>

lemma sorted_ids_props [simp]:
  "set (sorted_ids xs) = set xs" "sorted (sorted_ids xs)" "distinct (sorted_ids xs)"
  by (simp_all add: sorted_ids_def)

lemma sorted_ids_Nil [simp]: "sorted_ids xs = [] \<longleftrightarrow> xs = []"
  by (metis sorted_ids_props(1) set_empty)

lemma max_loop_total:
  assumes "\<And>x. x \<in> set xs \<Longrightarrow> key x = Inr (f x)" and "sorted (best # xs)"
  shows "\<exists>r. max_loop key best (f best) xs = Inr r \<and> r \<in> set (best # xs)
             \<and> (\<forall>x \<in> set (best # xs). f x \<le> f r \<and> (f x = f r \<longrightarrow> r \<le> x))"
  using assms
proof (induction xs arbitrary: best)
  case Nil
  then show ?case by simp
next
  case (Cons x xs)
  have kx: "key x = Inr (f x)" using Cons.prems(1) by simp
  have kxs: "\<And>y. y \<in> set xs \<Longrightarrow> key y = Inr (f y)" using Cons.prems(1) by simp
  show ?case
  proof (cases "f x > f best")
    case True
    have "sorted (x # xs)" using Cons.prems(2) by simp
    from Cons.IH[OF kxs this] obtain r where r: "max_loop key x (f x) xs = Inr r" "r \<in> set (x # xs)"
      "\<forall>y \<in> set (x # xs). f y \<le> f r \<and> (f y = f r \<longrightarrow> r \<le> y)" by blast
    have "f best < f r" using True r(3) by force
    then show ?thesis using r True kx by auto
  next
    case False
    have "sorted (best # xs)" using Cons.prems(2) by simp
    from Cons.IH[OF kxs this] obtain r where r: "max_loop key best (f best) xs = Inr r"
      "r \<in> set (best # xs)"
      "\<forall>y \<in> set (best # xs). f y \<le> f r \<and> (f y = f r \<longrightarrow> r \<le> y)" by blast
    have bx: "best \<le> x" using Cons.prems(2) by simp
    have fb: "f best \<le> f r" "f best = f r \<longrightarrow> r \<le> best" using r(3) by auto
    have "f x \<le> f r" using False fb by simp
    moreover have "f x = f r \<longrightarrow> r \<le> x" using False fb bx by auto
    ultimately show ?thesis using r False kx by auto
  qed
qed

lemma max_loop_error:
  "max_loop key best v xs = Inl e \<Longrightarrow> \<exists>x \<in> set xs. key x = Inl e"
  by (induction xs arbitrary: best v) (auto split: sum.splits if_splits)

lemma max_by_total:
  assumes "\<And>x. x \<in> set ids \<Longrightarrow> key x = Inr (f x)" and "ids \<noteq> []"
  shows "\<exists>r. max_by key (sorted_ids ids) = Inr (Some r) \<and> r \<in> set ids
             \<and> (\<forall>x \<in> set ids. f x \<le> f r \<and> (f x = f r \<longrightarrow> r \<le> x))"
proof -
  obtain y ys where ys: "sorted_ids ids = y # ys"
    using assms(2) by (cases "sorted_ids ids") auto
  have mem: "set (y # ys) = set ids" and srt: "sorted (y # ys)"
    using sorted_ids_props[of ids] ys by auto
  have k: "\<And>x. x \<in> set ys \<Longrightarrow> key x = Inr (f x)" "key y = Inr (f y)"
    using assms(1) mem by auto
  from max_loop_total[of ys key f y, OF k(1) srt]
  obtain r where "max_loop key y (f y) ys = Inr r" "r \<in> set (y # ys)"
    "\<forall>x \<in> set (y # ys). f x \<le> f r \<and> (f x = f r \<longrightarrow> r \<le> x)" by blast
  then show ?thesis using ys k(2) mem by (auto simp: max_by_def)
qed

lemma max_by_error:
  "max_by key ids = Inl e \<Longrightarrow> \<exists>x \<in> set ids. key x = Inl e"
  by (cases ids) (auto simp: max_by_def split: sum.splits dest: max_loop_error)

lemma max_by_None: "max_by key ids = Inr None \<longleftrightarrow> ids = []"
  by (cases ids) (auto simp: max_by_def split: sum.splits)

lemma max_by_key_defined:
  "max_by key ids = Inr r \<Longrightarrow> x \<in> set ids \<Longrightarrow> \<exists>v. key x = Inr v"
proof -
  have ml: "\<And>best v xs r. max_loop key best v xs = Inr r \<Longrightarrow> x \<in> set xs \<Longrightarrow> \<exists>v. key x = Inr v"
  proof -
    fix best v xs r show "max_loop key best v xs = Inr r \<Longrightarrow> x \<in> set xs \<Longrightarrow> \<exists>v. key x = Inr v"
      by (induction xs arbitrary: best v) (auto split: sum.splits if_splits)
  qed
  show "max_by key ids = Inr r \<Longrightarrow> x \<in> set ids \<Longrightarrow> \<exists>v. key x = Inr v"
    by (cases ids) (auto simp: max_by_def split: sum.splits dest: ml)
qed

section \<open>GreedyPHANTOM: the coloring parent\<close>

lemma get_bluest_spec:
  assumes "get_bluest g ids = Inr r"
  shows "(r = None \<longleftrightarrow> ids = [])
         \<and> (\<forall>c. r = Some c \<longrightarrow> c \<in> set ids
               \<and> (\<forall>p \<in> set ids. \<exists>bp bc. attr g p blue_number = Inr bp
                      \<and> attr g c blue_number = Inr bc \<and> bp \<le> bc \<and> (bp = bc \<longrightarrow> c \<le> p)))"
proof (cases "ids = []")
  case True
  then show ?thesis using assms by (simp add: get_bluest_def get_extreme_blue_def max_by_def sorted_ids_def)
next
  case False
  let ?key = "\<lambda>gid. attr g gid blue_number"
  define f where "f x = (case ?key x of Inr v \<Rightarrow> v | Inl e \<Rightarrow> 0)" for x
  have mb: "max_by ?key (sorted_ids ids) = Inr r"
    using assms by (simp add: get_bluest_def get_extreme_blue_def)
  have k: "\<And>x. x \<in> set ids \<Longrightarrow> ?key x = Inr (f x)"
  proof -
    fix x assume "x \<in> set ids"
    then have "x \<in> set (sorted_ids ids)" by simp
    from max_by_key_defined[OF mb this] show "?key x = Inr (f x)" by (auto simp: f_def)
  qed
  from max_by_total[of ids ?key f, OF k False] obtain c where c:
    "max_by ?key (sorted_ids ids) = Inr (Some c)" "c \<in> set ids"
    "\<forall>x \<in> set ids. f x \<le> f c \<and> (f x = f c \<longrightarrow> c \<le> x)" by blast
  have "r = Some c" using mb c(1) by simp
  then show ?thesis using False c k by auto
qed

lemma attr_error_is_KeyError: "attr g n key = Inl e \<Longrightarrow> e = KeyError"
  by (auto simp: attr_def split: option.splits)

lemma get_bluest_error_is_KeyError: "get_bluest g ids = Inl e \<Longrightarrow> e = KeyError"
  by (auto simp: get_bluest_def get_extreme_blue_def dest!: max_by_error attr_error_is_KeyError)

lemma get_bluest_missing:
  assumes "p \<in> set ids" and "attr g p blue_number = Inl e0"
  shows "get_bluest g ids = Inl KeyError"
proof (cases "get_bluest g ids")
  case (Inl e)
  then show ?thesis using get_bluest_error_is_KeyError by blast
next
  case (Inr r)
  then have "max_by (\<lambda>gid. attr g gid blue_number) (sorted_ids ids) = Inr r"
    by (simp add: get_bluest_def get_extreme_blue_def)
  from max_by_key_defined[OF this, of p] assms show ?thesis by simp
qed

lemma get_bluest_cong:
  "(\<And>n. attr g' n blue_number = attr g n blue_number) \<Longrightarrow> get_bluest g' ids = get_bluest g ids"
  by (simp add: get_bluest_def get_extreme_blue_def)

text \<open>The attributes of the graph after \<open>add_to_graph\<close>.\<close>

lemma attr_add_node_unset:
  "key no_pnode = None \<Longrightarrow> attr (add_node no_pnode g n) m key = attr g m key"
  by (auto simp: attr_def map_of_node_attrs_add_node has_node_map_of split: option.splits)

lemma attr_add_edge_unset:
  "key no_pnode = None \<Longrightarrow> attr (add_edge no_pnode g u v) m key = attr g m key"
proof -
  assume k: "key no_pnode = None"
  have "attr (add_edge no_pnode g u v) m key = attr (add_node no_pnode (add_node no_pnode g u) v) m key"
    by (simp add: attr_def node_attrs_add_edge)
  then show ?thesis using k by (simp add: attr_add_node_unset)
qed

lemma attr_foldl_add_edge_unset:
  "key no_pnode = None \<Longrightarrow>
   attr (foldl (\<lambda>gr parent. add_edge no_pnode gr u parent) g ps) m key = attr g m key"
  by (induction ps arbitrary: g) (simp_all add: attr_add_edge_unset)

lemma nodes_foldl_add_edge:
  "set (nodes (foldl (\<lambda>gr parent. add_edge no_pnode gr u parent) g ps))
     = (if ps = [] then set (nodes g) else insert u (set ps \<union> set (nodes g)))"
  by (induction ps arbitrary: g) (auto simp: nodes_add_edge)

lemma nodes_add_to_graph:
  "set (nodes (add_to_graph g b)) = insert (hash b) (set (get_parents b) \<union> set (nodes g))"
  by (auto simp: add_to_graph_def Let_def nodes_foldl_add_edge nodes_add_node)

lemma blue_number_add_to_graph:
  "attr (add_to_graph g b) p blue_number = attr g p blue_number"
proof -
  have nb: "blue_number no_pnode = None" by (simp add: no_pnode_def)
  show ?thesis
    unfolding add_to_graph_def Let_def
    by (simp add: attr_foldl_add_edge_unset[where key=blue_number] nb attr_set_attrs_same_field
        attr_add_node_unset[where key=blue_number])
qed

text \<open>Which steps of \<open>add\<close> change the graph, and how.\<close>

lemma G_uncolored_lazy_update [simp]: "G (uncolored_lazy_update s v) = G s"
  by (simp add: uncolored_lazy_update_def split: prod.splits)

lemma G_uncolored_lazy_difference_update [simp]: "G (uncolored_lazy_difference_update s v) = G s"
  by (simp add: uncolored_lazy_difference_update_def split: prod.splits)

lemma G_uncolored_add [simp]: "G (uncolored_add s x) = G s"
  by (simp add: uncolored_add_def)

lemma G_past_coloring_loop:
  "past_coloring_loop s triples bo ro = Inr (s', bo', ro') \<Longrightarrow> G s' = G s"
proof (induction s triples bo ro rule: past_coloring_loop.induct)
  case (1 s bo ro)
  then show ?case by simp
next
  case (2 s cur is_main is_int rest bo ro)
  show ?case
  proof (cases is_int)
    case True
    then show ?thesis using 2 by simp
  next
    case False
    show ?thesis
    proof (cases is_main)
      case True
      then show ?thesis using 2(2)[OF False True] 2(4) False
        by (simp add: Let_def split: if_splits)
    next
      case nm: False
      then show ?thesis using 2(3)[OF False nm] 2(4) False
        by (auto split: sum.splits)
    qed
  qed
qed

lemma G_append_past_orderings [simp]: "G (append_past_orderings s zs) = G s"
  by (induction s zs rule: append_past_orderings.induct) (simp_all add: Let_def)

lemma G_update_past_coloring_according_to:
  "update_past_coloring_according_to fuel s t = Inr s' \<Longrightarrow> G s' = G s"
  by (auto simp: update_past_coloring_according_to_def Let_def clear_antipast_order_def
      split: sum.splits prod.splits option.splits if_splits dest!: G_past_coloring_loop)

lemma G_update_max_coloring:
  "update_max_coloring fuel s gid = Inr s' \<Longrightarrow> G s' = G s"
  by (auto simp: update_max_coloring_def Let_def
      split: sum.splits if_splits dest!: G_update_past_coloring_according_to)

lemma coloring_parent_update_diff_coloring_of_block:
  "update_diff_coloring_of_block fuel s gid = Inr s' \<Longrightarrow>
   attr (G s') m coloring_parent = attr (G s) m coloring_parent"
  by (auto simp: update_diff_coloring_of_block_def attr_set_attrs_same_field split: sum.splits)

lemma coloring_parent_update_self_order_index:
  "update_self_order_index g gid = Inr g' \<Longrightarrow>
   attr g' m coloring_parent = attr g m coloring_parent"
  by (auto simp: update_self_order_index_def Let_def attr_set_attrs_same_field
      split: sum.splits option.splits)

lemma coloring_parent_gr_update_topological_order_incrementally:
  "gr_update_topological_order_incrementally fuel s gid = Inr s' \<Longrightarrow>
   attr (G s') m coloring_parent = attr (G s) m coloring_parent"
  by (auto simp: gr_update_topological_order_incrementally_def attr_set_attrs_same_field
      split: sum.splits dest!: coloring_parent_update_self_order_index)

lemma coloring_parent_gr_update_coloring_incrementally:
  assumes "gr_update_coloring_incrementally fuel s gid = Inr s'"
  shows "\<exists>blk cp. attr (G s) gid block_data = Inr blk
           \<and> get_bluest (G s) (get_parents blk) = Inr cp
           \<and> attr (G s') gid coloring_parent = Inr cp"
proof -
  from assms obtain blk where blk: "attr (G s) gid block_data = Inr blk"
    by (auto simp: gr_update_coloring_incrementally_def split: sum.splits)
  then have hn: "has_node (G s) gid"
    by (auto simp: attr_def has_node_map_of split: option.splits)
  let ?g1 = "set_attrs (G s) gid (\<lambda>a. a\<lparr>self_order_index := Some None\<rparr>)"
  have gb: "get_bluest ?g1 (get_parents blk) = get_bluest (G s) (get_parents blk)"
    by (rule get_bluest_cong) (simp add: attr_set_attrs_same_field)
  from assms blk obtain cp where cp: "get_bluest ?g1 (get_parents blk) = Inr cp"
    by (auto simp: gr_update_coloring_incrementally_def Let_def split: sum.splits)
  let ?g2 = "set_attrs ?g1 gid
               (\<lambda>a. a\<lparr>coloring_parent := Some cp, blue_diff_past_order := Some [],
                       red_diff_past_order := Some []\<rparr>)"
  have w: "attr ?g2 gid coloring_parent = Inr cp"
    by (rule attr_set_attrs_written) (use hn in simp_all)
  from assms blk cp obtain h bn s2 where
    s2: "update_diff_coloring_of_block fuel
           (uncolored_add (s\<lparr>G := set_attrs ?g2 gid (\<lambda>a. a\<lparr>height := Some h, blue_number := Some bn\<rparr>)\<rparr>) gid)
           gid = Inr s2"
    and s': "update_max_coloring fuel s2 gid = Inr s'"
    by (auto simp: gr_update_coloring_incrementally_def Let_def split: sum.splits prod.splits)
  have "attr (G s') gid coloring_parent = attr (G s2) gid coloring_parent"
    using G_update_max_coloring[OF s'] by simp
  also have "\<dots> = attr (set_attrs ?g2 gid (\<lambda>a. a\<lparr>height := Some h, blue_number := Some bn\<rparr>)) gid coloring_parent"
    using coloring_parent_update_diff_coloring_of_block[OF s2, of gid] by simp
  also have "\<dots> = attr ?g2 gid coloring_parent"
    by (simp add: attr_set_attrs_same_field)
  finally show ?thesis using blk cp gb w by simp
qed

lemma block_data_add_to_graph: "attr (add_to_graph g b) (hash b) block_data = Inr b"
proof -
  have nb: "block_data no_pnode = None" by (simp add: no_pnode_def)
  let ?g1 = "add_node no_pnode g (hash b)"
  have hn: "has_node ?g1 (hash b)" using nodes_add_node[of no_pnode g "hash b"] by (simp add: has_node_def)
  have "attr (set_attrs ?g1 (hash b) (\<lambda>a. a\<lparr>block_data := Some b\<rparr>)) (hash b) block_data = Inr b"
    by (rule attr_set_attrs_written[OF hn]) simp
  moreover have "attr (add_to_graph g b) (hash b) block_data
      = attr (set_attrs ?g1 (hash b) (\<lambda>a. a\<lparr>block_data := Some b\<rparr>)) (hash b) block_data"
    unfolding add_to_graph_def Let_def
    by (simp add: attr_foldl_add_edge_unset[where key=block_data] nb)
  ultimately show ?thesis by simp
qed

text \<open>
  C7. When \<open>add\<close> returns for a block \<open>b\<close>, the attribute \<open>coloring_parent\<close> of \<open>b\<close> is
  \<open>None\<close> exactly when \<open>b\<close> has no parents; otherwise it is one of the parents of \<open>b\<close>, no
  parent has a larger \<open>blue_number\<close> (as stored when \<open>b\<close> is added), and every parent with
  the same \<open>blue_number\<close> has a global id that is at least as large.
\<close>

theorem C7_coloring_parent_is_bluest_parent:
  "gr_add fuel s b = Inr s' \<Longrightarrow>
   (\<exists>cp. attr (G s') (hash b) coloring_parent = Inr cp
      \<and> (cp = None \<longleftrightarrow> get_parents b = [])
      \<and> (\<forall>c. cp = Some c \<longrightarrow> c \<in> set (get_parents b)
            \<and> (\<forall>p \<in> set (get_parents b). \<exists>bp bc.
                  attr (G s) p blue_number = Inr bp \<and> attr (G s) c blue_number = Inr bc
                  \<and> bp \<le> bc \<and> (bp = bc \<longrightarrow> c \<le> p))))"
proof -
  assume a: "gr_add fuel s b = Inr s'"
  let ?s1 = "s\<lparr>G := add_to_graph (G s) b, leaves := update_leaves (leaves s) b\<rparr>"
  from a obtain s2 where s2: "gr_update_coloring_incrementally fuel ?s1 (hash b) = Inr s2"
    and s': "gr_update_topological_order_incrementally fuel s2 (hash b) = Inr s'"
    by (auto simp: gr_add_def Let_def split: sum.splits)
  from coloring_parent_gr_update_coloring_incrementally[OF s2]
  obtain blk cp where blk: "attr (G ?s1) (hash b) block_data = Inr blk"
    and gb: "get_bluest (G ?s1) (get_parents blk) = Inr cp"
    and cp: "attr (G s2) (hash b) coloring_parent = Inr cp" by blast
  have "blk = b" using blk block_data_add_to_graph[of "G s" b] by simp
  have gb': "get_bluest (G s) (get_parents b) = Inr cp"
    using gb \<open>blk = b\<close> get_bluest_cong[of "add_to_graph (G s) b" "G s" "get_parents b"]
    by (simp add: blue_number_add_to_graph)
  have "attr (G s') (hash b) coloring_parent = Inr cp"
    using coloring_parent_gr_update_topological_order_incrementally[OF s', of "hash b"] cp by simp
  then show ?thesis using get_bluest_spec[OF gb'] by blast
qed

lemma fork_run:
  "(case fork_state of Inl e \<Rightarrow> False | Inr s \<Rightarrow>
      attr (G s) 7 blue_number = Inr 0 \<and> attr (G s) 8 blue_number = Inr 1
      \<and> (case gr_add 50 s (blk 6 [7, 8]) of Inl e \<Rightarrow> False | Inr s' \<Rightarrow> True))"
  by code_simp

theorem C7_coloring_parent_is_bluest_parent_witness:
  "\<exists>s s'. fork_state = Inr s \<and> attr (G s) 7 blue_number = Inr 0
      \<and> attr (G s) 8 blue_number = Inr 1
      \<and> gr_add 50 s (blk 6 [7, 8]) = Inr s'
      \<and> attr (G s') 6 coloring_parent = Inr (Some 8)"
proof -
  from fork_run obtain s s' where s: "fork_state = Inr s"
    and b7: "attr (G s) 7 blue_number = Inr 0" and b8: "attr (G s) 8 blue_number = Inr 1"
    and s': "gr_add 50 s (blk 6 [7, 8]) = Inr s'"
    by (auto split: sum.splits)
  have hb: "hash (blk 6 [7, 8]) = 6" and ps: "get_parents (blk 6 [7, 8]) = [7, 8]"
    by (simp_all add: hash_def get_parents_def blk_def)
  from C7_coloring_parent_is_bluest_parent[OF s'] obtain cp where
    cp: "attr (G s') 6 coloring_parent = Inr cp"
    and nn: "cp \<noteq> None"
    and mx: "\<And>c. cp = Some c \<Longrightarrow> c \<in> {7, 8}
               \<and> (\<forall>p \<in> {7, 8}. \<exists>bp bc. attr (G s) p blue_number = Inr bp
                     \<and> attr (G s) c blue_number = Inr bc \<and> bp \<le> bc \<and> (bp = bc \<longrightarrow> c \<le> p))"
    unfolding hb ps by auto
  from nn obtain c where c: "cp = Some c" by auto
  from mx[OF c] b7 b8 have "c = 8" by auto
  then show ?thesis using s b7 b8 s' cp c by (intro exI[of _ s] exI[of _ s']) simp
qed

section \<open>The nodes of the graph after \<open>add\<close>\<close>

lemma nodes_update_diff_coloring_of_block:
  "update_diff_coloring_of_block fuel s gid = Inr s' \<Longrightarrow> nodes (G s') = nodes (G s)"
  by (auto simp: update_diff_coloring_of_block_def split: sum.splits)

lemma nodes_update_self_order_index:
  "update_self_order_index g gid = Inr g' \<Longrightarrow> nodes g' = nodes g"
  by (auto simp: update_self_order_index_def Let_def split: sum.splits option.splits)

lemma nodes_gr_update_topological_order_incrementally:
  "gr_update_topological_order_incrementally fuel s gid = Inr s' \<Longrightarrow> nodes (G s') = nodes (G s)"
  by (auto simp: gr_update_topological_order_incrementally_def
      split: sum.splits dest!: nodes_update_self_order_index)

lemma nodes_gr_update_coloring_incrementally:
  "gr_update_coloring_incrementally fuel s gid = Inr s' \<Longrightarrow> nodes (G s') = nodes (G s)"
  by (auto simp: gr_update_coloring_incrementally_def Let_def
      split: sum.splits prod.splits
      dest!: G_update_max_coloring nodes_update_diff_coloring_of_block)

lemma nodes_gr_add:
  assumes "gr_add fuel s b = Inr s'"
  shows "set (nodes (G s')) = insert (hash b) (set (get_parents b) \<union> set (nodes (G s)))"
proof -
  let ?s1 = "s\<lparr>G := add_to_graph (G s) b, leaves := update_leaves (leaves s) b\<rparr>"
  from assms obtain s2 where s2: "gr_update_coloring_incrementally fuel ?s1 (hash b) = Inr s2"
    and s': "gr_update_topological_order_incrementally fuel s2 (hash b) = Inr s'"
    by (auto simp: gr_add_def Let_def split: sum.splits)
  have "nodes (G s') = nodes (add_to_graph (G s) b)"
    using nodes_gr_update_topological_order_incrementally[OF s']
      nodes_gr_update_coloring_incrementally[OF s2] by simp
  then show ?thesis by (simp add: nodes_add_to_graph)
qed

lemma gr_add_missing_parent:
  assumes "p \<in> set (get_parents b)" and "\<not> has_node (G s) p"
  shows "gr_add fuel s b = Inl KeyError"
proof -
  let ?g = "add_to_graph (G s) b"
  let ?g1 = "set_attrs ?g (hash b) (\<lambda>a. a\<lparr>self_order_index := Some None\<rparr>)"
  have "attr (G s) p blue_number = Inl KeyError"
    using assms(2) by (simp add: attr_def has_node_map_of)
  then have "attr ?g1 p blue_number = Inl KeyError"
    by (simp add: attr_set_attrs_same_field blue_number_add_to_graph)
  then have "get_bluest ?g1 (get_parents b) = Inl KeyError"
    using get_bluest_missing[OF assms(1)] by blast
  then show ?thesis
    by (simp add: gr_add_def gr_update_coloring_incrementally_def Let_def block_data_add_to_graph)
qed

lemma G_update_antipast_coloring:
  "update_antipast_coloring fuel s = Inr s' \<Longrightarrow> G s' = G s"
  by (auto simp: update_antipast_coloring_def split: sum.splits)

lemma G_gr_get_local_id:
  "gr_get_local_id fuel s gid = Inr (r, s') \<Longrightarrow> G s' = G s"
  by (auto simp: gr_get_local_id_def Let_def split: sum.splits if_splits
      dest!: G_update_antipast_coloring)

lemma G_gr_is_a_before_b:
  "gr_is_a_before_b fuel s a b = Inr (r, s') \<Longrightarrow> G s' = G s"
  by (auto simp: gr_is_a_before_b_def Let_def split: sum.splits if_splits
      dest!: G_gr_get_local_id)

lemma G_did_attack_succeed:
  "did_attack_succeed fuel s = Inr (r, s') \<Longrightarrow> G (dag s') = G (dag s)"
  by (auto simp: did_attack_succeed_def split: sum.splits if_splits option.splits
      dest!: G_gr_is_a_before_b)

lemma dag_add_malicious_blocks_to_honest_dag:
  "add_malicious_blocks_to_honest_dag fuel s = Inr s' \<Longrightarrow> dag s' = dag s"
  by (auto simp: add_malicious_blocks_to_honest_dag_def split: sum.splits)

lemma dag_stop_attack: "stop_attack fuel s = Inr s' \<Longrightarrow> dag s' = dag s"
  by (auto simp: stop_attack_def split: sum.splits dest!: dag_add_malicious_blocks_to_honest_dag)

lemma dag_add_malicious_part: "add_malicious_part fuel s b = Inr s' \<Longrightarrow> dag s' = dag s"
  by (auto simp: add_malicious_part_def Let_def split: sum.splits if_splits)

lemma dag_add_honest_part: "add_honest_part fuel s b = Inr s' \<Longrightarrow> dag s' = dag s"
  by (auto simp: add_honest_part_def split: sum.splits if_splits
      dest!: dag_add_malicious_blocks_to_honest_dag)

lemma dag_add_attack_update: "add_attack_update fuel s b = Inr s' \<Longrightarrow> dag s' = dag s"
  by (auto simp: add_attack_update_def Let_def split: sum.splits if_splits option.splits
      dest!: dag_stop_attack)

lemma G_cc_add:
  assumes "cc_add fuel s b is_malicious = Inr s'"
  shows "\<exists>dag1. gr_add fuel (dag s) b = Inr dag1 \<and> G (dag s') = G dag1"
proof -
  from assms obtain s3 where s3: "add_before_attack_update fuel s b is_malicious = Inr s3"
    and s': "add_attack_update fuel s3 b = Inr s'"
    by (auto simp: cc_add_def split: sum.splits)
  from s3 obtain dag1 s1 r s2 where d: "gr_add fuel (dag s) b = Inr dag1"
    and s1: "(if is_malicious then add_malicious_part fuel (s\<lparr>dag := dag1\<rparr>) b
            else add_honest_part fuel (s\<lparr>dag := dag1\<rparr>) b) = Inr s1"
    and s2: "did_attack_succeed fuel s1 = Inr (r, s2)"
    and s3': "(if r = Some True then add_malicious_blocks_to_honest_dag fuel s2 else Inr s2) = Inr s3"
    by (auto simp: add_before_attack_update_def split: sum.splits)
  have "dag s1 = dag1" using s1 dag_add_malicious_part dag_add_honest_part
    by (fastforce split: if_splits)
  moreover have "dag s3 = dag s2" using s3' dag_add_malicious_blocks_to_honest_dag
    by (fastforce split: if_splits)
  ultimately show ?thesis
    using d G_did_attack_succeed[OF s2] dag_add_attack_update[OF s'] by simp
qed

lemma cc_add_missing_parent:
  assumes "p \<in> set (get_parents b)" and "\<not> has_node (G (dag s)) p"
  shows "cc_add fuel s b is_malicious = Inl KeyError"
  by (simp add: cc_add_def add_before_attack_update_def gr_add_missing_parent[OF assms])



section \<open>PHANTOM: \<open>add\<close> returns\<close>

lemma succs_nodes: "digraph_ok g \<Longrightarrow> set (succs g n) \<subseteq> set (nodes g)"
proof (cases "map_of (adj g) n")
  case None
  then show ?thesis by (simp add: succs_def)
next
  case (Some ps)
  assume ok: "digraph_ok g"
  from Some have "(n, ps) \<in> set (adj g)" by (rule map_of_SomeD)
  then have "set ps \<subseteq> set (nodes g)" using ok by (auto simp: digraph_ok_def)
  then show ?thesis using Some by (simp add: succs_def)
qed

lemma digraph_ok_empty: "digraph_ok empty_digraph"
  by (simp add: digraph_ok_def empty_digraph_def)

lemma digraph_ok_set_attrs [simp]: "digraph_ok (set_attrs g n f) = digraph_ok g"
  by (simp add: digraph_ok_def)

lemma digraph_ok_add_node: "digraph_ok g \<Longrightarrow> digraph_ok (add_node e g n)"
  by (auto simp: digraph_ok_def add_node_def nodes_def)

lemma set_alist_update: "set (AList.update x y al) \<subseteq> insert (x, y) (set al)"
  by (induction al) auto

lemma digraph_ok_add_edge:
  assumes "digraph_ok g"
  shows "digraph_ok (add_edge e g u v)"
proof -
  let ?g1 = "add_node e (add_node e g u) v"
  have ok1: "digraph_ok ?g1" using assms by (simp add: digraph_ok_add_node)
  have v: "v \<in> set (nodes ?g1)" by (simp add: nodes_add_node)
  have n1: "nodes (add_edge e g u v) = nodes ?g1"
    by (simp add: add_edge_def Let_def nodes_def)
  show ?thesis
  proof (cases "v \<in> set (succs ?g1 u)")
    case True
    then show ?thesis using ok1 by (simp add: add_edge_def Let_def)
  next
    case False
    have "set ps \<subseteq> set (nodes ?g1)"
      if "(n, ps) \<in> set (AList.update u (succs ?g1 u @ [v]) (adj ?g1))" for n ps
    proof -
      from that have "(n, ps) \<in> set (adj ?g1) \<or> ps = succs ?g1 u @ [v]"
        using set_alist_update by fastforce
      then show ?thesis
        using ok1 v succs_nodes[OF ok1, of u] by (auto simp: digraph_ok_def)
    qed
    then have "\<forall>(n, ps) \<in> set (adj (add_edge e g u v)). set ps \<subseteq> set (nodes ?g1)"
      using False by (auto simp: add_edge_def Let_def)
    then show ?thesis unfolding digraph_ok_def n1 .
  qed
qed

lemma digraph_ok_foldl_add_edge:
  "digraph_ok g \<Longrightarrow> digraph_ok (foldl (\<lambda>gr parent. add_edge e gr u parent) g ps)"
  by (induction ps arbitrary: g) (simp_all add: digraph_ok_add_edge)

lemma digraph_ok_add_to_graph: "digraph_ok g \<Longrightarrow> digraph_ok (add_to_graph g b)"
  by (simp add: add_to_graph_def Let_def digraph_ok_foldl_add_edge digraph_ok_add_node)

lemma nodes_foldl_set_attrs [simp]:
  "nodes (foldl (\<lambda>gr (x, y). set_attrs gr (sel x y) (f x y)) g xs) = nodes g"
  by (induction xs arbitrary: g) auto

lemma adj_foldl_set_attrs [simp]:
  "adj (foldl (\<lambda>gr (x, y). set_attrs gr (sel x y) (f x y)) g xs) = adj g"
  by (induction xs arbitrary: g) auto

lemma digraph_ok_foldl_set_attrs [simp]:
  "digraph_ok (foldl (\<lambda>gr (x, y). set_attrs gr (sel x y) (f x y)) g xs) = digraph_ok g"
  by (simp add: digraph_ok_def)

lemma topological_order_total:
  fixes g :: "pnode digraph"
  shows "digraph_ok g \<Longrightarrow> set lvs \<subseteq> set (nodes g) \<Longrightarrow> card (set (nodes g) - ordered) < fuel
          \<Longrightarrow> \<exists>order ordered'. get_topological_order fuel g col ordered lvs = Inr (order, ordered')
                \<and> ordered \<subseteq> ordered'"
    and "digraph_ok g \<Longrightarrow> set ls \<subseteq> set (nodes g)
          \<Longrightarrow> \<forall>l \<in> set ls. card (set (nodes g) - insert l ordered) < fuel
          \<Longrightarrow> \<exists>order ordered'. order_leaves fuel g col ordered ls cur_order = Inr (order, ordered')
                \<and> ordered \<subseteq> ordered'"
proof (induction fuel g col ordered lvs and fuel g col ordered ls cur_order
    rule: get_topological_order_order_leaves.induct)
  case (1 g col ordered lvs)
  then show ?case by simp
next
  case (2 fuel g col ordered lvs)
  let ?lvs1 = "filter (\<lambda>x. x \<notin> ordered) lvs"
  show ?case
  proof (cases "?lvs1 = []")
    case True
    then show ?thesis by simp
  next
    case False
    let ?blue = "filter (\<lambda>x. x \<in> set col) ?lvs1"
    let ?ls = "sorted_ids ?blue @ sorted_ids (filter (\<lambda>x. x \<notin> set ?blue) ?lvs1)"
    have sub: "set ?ls \<subseteq> set (nodes g) - ordered" using "2.prems"(2) by auto
    have "card (set (nodes g) - insert l ordered) < fuel" if "l \<in> set ?ls" for l
    proof -
      from that sub have l: "l \<in> set (nodes g) - ordered" by blast
      have "set (nodes g) - insert l ordered = (set (nodes g) - ordered) - {l}" by blast
      moreover have "card ((set (nodes g) - ordered) - {l}) < card (set (nodes g) - ordered)"
        by (rule card_Diff1_less) (use l in auto)
      ultimately show ?thesis using "2.prems"(3) by simp
    qed
    then have "\<exists>order ordered'. order_leaves fuel g col ordered ?ls [] = Inr (order, ordered')
        \<and> ordered \<subseteq> ordered'"
      using "2.IH"[OF refl False refl "2.prems"(1)] sub by blast
    then show ?thesis using False by (simp add: Let_def)
  qed
next
  case (3 fuel g col ordered cur_order)
  then show ?case by simp
next
  case (4 fuel g col ordered leaf rest cur_order)
  have leaf: "has_node g leaf" using "4.prems"(2) by (simp add: has_node_def)
  then have sc: "successors g leaf = Inr (succs g leaf)" by (simp add: successors_def)
  have "\<exists>order ordered'. get_topological_order fuel g col (insert leaf ordered) (succs g leaf)
          = Inr (order, ordered') \<and> insert leaf ordered \<subseteq> ordered'"
    using "4.IH"(1)[OF sc "4.prems"(1)] succs_nodes[OF "4.prems"(1)] "4.prems"(3) by simp
  then obtain cur_leaf_order ordered1 where
    r: "get_topological_order fuel g col (insert leaf ordered) (succs g leaf)
          = Inr (cur_leaf_order, ordered1)"
    and sub1: "insert leaf ordered \<subseteq> ordered1" by blast
  have "card (set (nodes g) - insert l ordered1) < fuel" if "l \<in> set rest" for l
  proof -
    have "set (nodes g) - insert l ordered1 \<subseteq> set (nodes g) - insert l ordered"
      using sub1 by blast
    then have "card (set (nodes g) - insert l ordered1) \<le> card (set (nodes g) - insert l ordered)"
      by (intro card_mono) auto
    then show ?thesis using "4.prems"(3) that by fastforce
  qed
  then have "\<exists>order ordered'.
      order_leaves fuel g col ordered1 rest (cur_order @ cur_leaf_order @ [leaf]) = Inr (order, ordered')
      \<and> ordered1 \<subseteq> ordered'"
    using "4.IH"(2)[OF sc r refl "4.prems"(1)] "4.prems"(2) by simp
  then show ?case using sc r sub1 by auto
qed

lemma G_ph_update_coloring_incrementally:
  "nodes (G (ph_update_coloring_incrementally s gid)) = nodes (G s)
   \<and> adj (G (ph_update_coloring_incrementally s gid)) = adj (G s)
   \<and> leaves (ph_update_coloring_incrementally s gid) = leaves s"
proof -
  have n: "nodes (foldl (\<lambda>gr (n, bac). set_attrs gr n (\<lambda>a. a\<lparr>blue_anticone := Some bac\<rparr>)) g xs)
             = nodes g
           \<and> adj (foldl (\<lambda>gr (n, bac). set_attrs gr n (\<lambda>a. a\<lparr>blue_anticone := Some bac\<rparr>)) g xs)
             = adj g" for g :: "pnode digraph" and xs
    by (induction xs arbitrary: g) auto
  show ?thesis
    by (simp add: ph_update_coloring_incrementally_def Let_def n split: prod.splits)
qed

lemma G_assign_lids:
  "nodes (foldl (\<lambda>gr (new_lid, cur_gid). set_attrs gr cur_gid (\<lambda>a. a\<lparr>lid := Some new_lid\<rparr>)) g xs)
     = nodes g
   \<and> adj (foldl (\<lambda>gr (new_lid, cur_gid). set_attrs gr cur_gid (\<lambda>a. a\<lparr>lid := Some new_lid\<rparr>)) g xs)
     = adj g"
  for g :: "pnode digraph"
  by (induction xs arbitrary: g) auto

lemma set_update_leaves:
  "set (update_leaves lvs b) = insert (hash b) (set lvs - set (get_parents b))"
  by (auto simp: update_leaves_def set_ior_def set_isub_def)

lemma ph_ok_init: "ph_ok (PHANTOM_init k_arg)"
  by (simp add: ph_ok_def PHANTOM_init_def digraph_ok_empty)

lemma ph_add_total:
  assumes ok: "ph_ok s"
    and fuel: "card (insert (hash b) (set (get_parents b) \<union> set (nodes (G s)))) < fuel"
  shows "\<exists>s'. ph_add fuel s b = Inr s' \<and> ph_ok s'
           \<and> set (nodes (G s')) = insert (hash b) (set (get_parents b) \<union> set (nodes (G s)))"
proof -
  let ?s1 = "s\<lparr>G := add_to_graph (G s) b, leaves := update_leaves (leaves s) b\<rparr>"
  let ?s2 = "ph_update_coloring_incrementally ?s1 (hash b)"
  note c = G_ph_update_coloring_incrementally[of ?s1 "hash b"]
  have nodes2: "set (nodes (G ?s2)) = insert (hash b) (set (get_parents b) \<union> set (nodes (G s)))"
    using c by (simp add: nodes_add_to_graph)
  have ok2: "digraph_ok (G ?s2)"
    using ok c digraph_ok_add_to_graph[of "G s" b] by (simp add: digraph_ok_def ph_ok_def)
  have lv2: "set (leaves ?s2) \<subseteq> set (nodes (G ?s2))"
    using ok c nodes2 by (auto simp: ph_ok_def set_update_leaves)
  have "card (set (nodes (G ?s2)) - {}) < fuel" using fuel nodes2 by simp
  from topological_order_total(1)[OF ok2 lv2 this, of "coloring ?s2"]
  obtain new_order ordered where
    t: "get_topological_order fuel (G ?s2) (coloring ?s2) {} (leaves ?s2) = Inr (new_order, ordered)"
    by blast
  let ?s' = "?s2\<lparr>genesis_gid := (case new_order of [] \<Rightarrow> None | x # xs \<Rightarrow> Some x),
              G := foldl (\<lambda>gr (new_lid, cur_gid). set_attrs gr cur_gid (\<lambda>a. a\<lparr>lid := Some new_lid\<rparr>))
                     (G ?s2) (enumerate 0 new_order)\<rparr>"
  have r: "ph_add fuel s b = Inr ?s'"
    using t by (simp add: ph_add_def Let_def ph_update_topological_order_incrementally_def)
  have "ph_ok ?s'"
    using ok2 lv2 G_assign_lids[of "G ?s2" "enumerate 0 new_order"]
    by (simp add: ph_ok_def digraph_ok_def)
  moreover have "set (nodes (G ?s')) = insert (hash b) (set (get_parents b) \<union> set (nodes (G s)))"
    using nodes2 G_assign_lids[of "G ?s2" "enumerate 0 new_order"] by simp
  ultimately show ?thesis using r by blast
qed

text \<open>
  C10 (as amended). In the brute-force engine \<open>add\<close> returns (the state is one that
  \<open>add\<close> keeps well formed, and the fuel exceeds the number of nodes), and afterwards
  every declared parent of the block is contained in the DAG, also one that was never
  added. In GreedyPHANTOM and in CompetingChainGreedyPHANTOM every declared parent is
  contained whenever \<open>add\<close> returns, but \<open>add\<close> raises \<open>KeyError\<close> when a declared parent
  is not in the DAG.
\<close>

theorem C10_declared_parents_are_contained:
  "ph_ok (PHANTOM_init k_arg)
   \<and> (ph_ok s \<and> card (insert (hash b) (set (get_parents b) \<union> set (nodes (G s)))) < fuel \<longrightarrow>
        (\<exists>s'. ph_add fuel s b = Inr s' \<and> ph_ok s' \<and> ph_contains s' (hash b)
              \<and> (\<forall>p \<in> set (get_parents b). ph_contains s' p)))
   \<and> (\<forall>g'. gr_add fuel g b = Inr g' \<longrightarrow> (\<forall>p \<in> set (get_parents b). gr_contains g' p))
   \<and> (\<forall>c'. cc_add fuel c b is_malicious = Inr c' \<longrightarrow>
          (\<forall>p \<in> set (get_parents b). cc_contains c' p))
   \<and> (\<forall>p \<in> set (get_parents b). \<not> gr_contains g p \<longrightarrow> gr_add fuel g b = Inl KeyError)
   \<and> (\<forall>p \<in> set (get_parents b). \<not> cc_contains c p \<longrightarrow>
          cc_add fuel c b is_malicious = Inl KeyError)"
proof -
  have a: "\<exists>s'. ph_add fuel s b = Inr s' \<and> ph_ok s' \<and> ph_contains s' (hash b)
              \<and> (\<forall>p \<in> set (get_parents b). ph_contains s' p)"
    if "ph_ok s" "card (insert (hash b) (set (get_parents b) \<union> set (nodes (G s)))) < fuel"
    using ph_add_total[OF that] by (auto simp: ph_contains_def has_node_def)
  have b: "\<forall>p \<in> set (get_parents b). gr_contains g' p" if "gr_add fuel g b = Inr g'" for g'
    using nodes_gr_add[OF that] by (simp add: gr_contains_def has_node_def)
  have c: "\<forall>p \<in> set (get_parents b). cc_contains c' p"
    if "cc_add fuel c b is_malicious = Inr c'" for c'
  proof -
    from G_cc_add[OF that] obtain dag1 where "gr_add fuel (dag c) b = Inr dag1"
      and "G (dag c') = G dag1" by blast
    then show ?thesis using nodes_gr_add[of fuel "dag c" b dag1]
      by (simp add: cc_contains_def gr_contains_def has_node_def)
  qed
  have d: "gr_add fuel g b = Inl KeyError" if "p \<in> set (get_parents b)" "\<not> gr_contains g p" for p
    using gr_add_missing_parent[OF that(1)] that(2) by (simp add: gr_contains_def)
  have e: "cc_add fuel c b is_malicious = Inl KeyError"
    if "p \<in> set (get_parents b)" "\<not> cc_contains c p" for p
    using cc_add_missing_parent[OF that(1)] that(2) by (simp add: cc_contains_def gr_contains_def)
  show ?thesis using ph_ok_init a b c d e by blast
qed

theorem C10_declared_parents_are_contained_witness:
  "(\<exists>s'. ph_add 3 (PHANTOM_init (Some 4)) (blk 1 [0]) = Inr s'
          \<and> ph_contains s' 0 \<and> ph_contains s' 1)
   \<and> (\<exists>s s'. fork_state = Inr s \<and> gr_add 50 s (blk 6 [7, 8]) = Inr s'
          \<and> gr_contains s' 7 \<and> gr_contains s' 8)
   \<and> \<not> gr_contains (GreedyPHANTOM_init (Some 4)) 0
   \<and> gr_add 50 (GreedyPHANTOM_init (Some 4)) (blk 1 [0]) = Inl KeyError
   \<and> \<not> cc_contains attack_start 0
   \<and> cc_add 50 attack_start (blk 1 [0]) True = Inl KeyError"
proof -
  have hb: "hash (blk 1 [0]) = 1" "get_parents (blk 1 [0]) = [0]"
    "get_parents (blk 6 [7, 8]) = [7, 8]"
    by (simp_all add: hash_def get_parents_def blk_def)
  have n0: "nodes (G (PHANTOM_init (Some 4))) = []"
    by (simp add: PHANTOM_init_def empty_digraph_def nodes_def)
  have g0: "\<not> gr_contains (GreedyPHANTOM_init (Some 4)) 0"
    by (simp add: GreedyPHANTOM_init_def gr_contains_def has_node_def empty_digraph_def nodes_def
        PHANTOM_init_def)
  have c0: "\<not> cc_contains attack_start 0"
    using g0 by (simp add: attack_start_def CompetingChainGreedyPHANTOM_init_def cc_contains_def)
  note t1 = C10_declared_parents_are_contained[where k_arg="Some 4"
      and s="PHANTOM_init (Some 4)" and b="blk 1 [0]" and fuel=3
      and g="GreedyPHANTOM_init (Some 4)" and c=attack_start and is_malicious=True]
  have A: "\<exists>s'. ph_add 3 (PHANTOM_init (Some 4)) (blk 1 [0]) = Inr s'
          \<and> ph_contains s' 0 \<and> ph_contains s' 1"
    using t1 by (auto simp: hb n0)
  from fork_run obtain s s' where s: "fork_state = Inr s"
    and s': "gr_add 50 s (blk 6 [7, 8]) = Inr s'"
    by (auto split: sum.splits)
  have B: "gr_contains s' 7 \<and> gr_contains s' 8"
    using C10_declared_parents_are_contained[where k_arg="Some 4"
        and s="PHANTOM_init (Some 4)" and b="blk 6 [7, 8]" and fuel=50 and g=s
        and c=attack_start and is_malicious=True] s'
    by (simp add: hb)
  have C: "gr_add 50 (GreedyPHANTOM_init (Some 4)) (blk 1 [0]) = Inl KeyError
           \<and> cc_add 50 attack_start (blk 1 [0]) True = Inl KeyError"
    using C10_declared_parents_are_contained[where k_arg="Some 4"
        and s="PHANTOM_init (Some 4)" and b="blk 1 [0]" and fuel=50
        and g="GreedyPHANTOM_init (Some 4)" and c=attack_start and is_malicious=True] g0 c0
    by (simp add: hb)
  show ?thesis using A B C s s' g0 c0 by blast
qed

theorem C10_missing_parent_counterexample:
  "gr_adds 50 (GreedyPHANTOM_init (Some 4)) [blk 0 [], blk 2 [0, 1]] = Inl KeyError
   \<and> cc_adds 50 attack_start [(blk 0 [], False), (blk 2 [0, 1], False)] = Inl KeyError
   \<and> map_sum id nodes_of (ph_adds 50 (PHANTOM_init (Some 4)) [blk 0 [], blk 2 [0, 1]])
       = Inr [0, 2, 1]"
  by code_simp

section \<open>PHANTOM: the brute-force coloring\<close>

lemma compute_blue_anticones_valid:
  "compute_blue_anticones kk anticones col = Some bacs \<Longrightarrow>
   (cur_block, anticone) \<in> set anticones \<Longrightarrow> cur_block \<in> set col \<Longrightarrow>
   int (length (filter (\<lambda>x. x \<in> set col) anticone)) \<le> kk"
proof (induction anticones arbitrary: bacs)
  case Nil
  then show ?case by simp
next
  case (Cons p anticones)
  obtain c a where p: "p = (c, a)" by (cases p)
  from Cons.prems(1) obtain rest where
    ok: "\<not> (c \<in> set col \<and> int (length (filter (\<lambda>x. x \<in> set col) a)) > kk)"
    and rest: "compute_blue_anticones kk anticones col = Some rest"
    by (auto simp: p Let_def split: if_splits option.splits)
  show ?case
  proof (cases "(cur_block, anticone) = (c, a)")
    case True
    then show ?thesis using ok Cons.prems(3) by auto
  next
    case False
    then have "(cur_block, anticone) \<in> set anticones" using Cons.prems(2) p by auto
    then show ?thesis using Cons.IH[OF rest _ Cons.prems(3)] by blast
  qed
qed

lemma coloring_loop_valid:
  assumes "coloring_loop kk anticones (best, best_bac) cands = (mc, mb)"
    and "best = [] \<or> (\<exists>bacs. compute_blue_anticones kk anticones best = Some bacs)"
  shows "mc = [] \<or> (\<exists>bacs. compute_blue_anticones kk anticones mc = Some bacs)"
  using assms
proof (induction cands arbitrary: best best_bac)
  case Nil
  then show ?case by simp
next
  case (Cons c cands)
  show ?case
  proof (cases "compute_blue_anticones kk anticones c")
    case None
    then show ?thesis using Cons by simp
  next
    case (Some bac)
    show ?thesis
    proof (cases "length c > length best")
      case True
      then have "coloring_loop kk anticones (c, bac) cands = (mc, mb)"
        using Cons.prems(1) Some by simp
      then show ?thesis using Cons.IH[of c bac] Some by blast
    next
      case False
      then have "coloring_loop kk anticones (best, best_bac) cands = (mc, mb)"
        using Cons.prems(1) Some by simp
      then show ?thesis using Cons.IH[of best best_bac] Cons.prems(2) by blast
    qed
  qed
qed

lemma coloring_loop_member:
  "coloring_loop kk anticones (best, best_bac) cands = (mc, mb) \<Longrightarrow>
   mc = best \<or> mc \<in> set cands"
proof (induction cands arbitrary: best best_bac)
  case Nil
  then show ?case by simp
next
  case (Cons c cands)
  then show ?case
    by (cases "compute_blue_anticones kk anticones c"; cases "length c > length best") fastforce+
qed

lemma set_combinations: "c \<in> set (combinations xs r) \<Longrightarrow> set c \<subseteq> set xs"
  by (induction xs r arbitrary: c rule: combinations.induct) (auto, blast+)

lemma set_powerset: "c \<in> set (powerset xs) \<Longrightarrow> set c \<subseteq> set xs"
  by (auto simp: powerset_def dest: set_combinations)

lemma get_anticone_attrs:
  "nodes g' = nodes g \<Longrightarrow> adj g' = adj g \<Longrightarrow> pred_adj g' = pred_adj g \<Longrightarrow>
   get_anticone g' b = get_anticone g b"
proof -
  assume a: "nodes g' = nodes g" "adj g' = adj g" "pred_adj g' = pred_adj g"
  have "succs g' = succs g" "preds g' = preds g"
    using a by (auto simp: succs_def preds_def fun_eq_iff)
  then show ?thesis
    using a by (simp add: get_anticone_def get_past_def get_future_def descendants_def ancestors_def)
qed

lemma edges_store_blue_anticones:
  "nodes (foldl (\<lambda>gr (n, bac). set_attrs gr n (\<lambda>a. a\<lparr>blue_anticone := Some bac\<rparr>)) g xs) = nodes g
   \<and> adj (foldl (\<lambda>gr (n, bac). set_attrs gr n (\<lambda>a. a\<lparr>blue_anticone := Some bac\<rparr>)) g xs) = adj g
   \<and> pred_adj (foldl (\<lambda>gr (n, bac). set_attrs gr n (\<lambda>a. a\<lparr>blue_anticone := Some bac\<rparr>)) g xs)
       = pred_adj g"
  for g :: "pnode digraph"
  by (induction xs arbitrary: g) auto

lemma edges_store_lids:
  "nodes (foldl (\<lambda>gr (new_lid, cur_gid). set_attrs gr cur_gid (\<lambda>a. a\<lparr>lid := Some new_lid\<rparr>)) g xs)
     = nodes g
   \<and> adj (foldl (\<lambda>gr (new_lid, cur_gid). set_attrs gr cur_gid (\<lambda>a. a\<lparr>lid := Some new_lid\<rparr>)) g xs)
     = adj g
   \<and> pred_adj (foldl (\<lambda>gr (new_lid, cur_gid). set_attrs gr cur_gid (\<lambda>a. a\<lparr>lid := Some new_lid\<rparr>)) g xs)
     = pred_adj g"
  for g :: "pnode digraph"
  by (induction xs arbitrary: g) auto

lemma card_inter_filter: "card (set xs \<inter> set col) \<le> length (filter (\<lambda>x. x \<in> set col) xs)"
proof -
  have "set xs \<inter> set col = set (filter (\<lambda>x. x \<in> set col) xs)" by auto
  then show ?thesis by (simp only: card_length)
qed

lemma ph_update_coloring_bounded:
  assumes "b \<in> set (coloring (ph_update_coloring_incrementally s gid))"
  shows "int (blue_in_anticone (G s) (coloring (ph_update_coloring_incrementally s gid)) b) \<le> k s"
proof -
  let ?anticones = "map (\<lambda>n. (n, get_anticone (G s) n)) (nodes (G s))"
  obtain mc mb where l: "coloring_loop (k s) ?anticones ([], []) (powerset (nodes (G s))) = (mc, mb)"
    by (cases "coloring_loop (k s) ?anticones ([], []) (powerset (nodes (G s)))") auto
  then have c: "coloring (ph_update_coloring_incrementally s gid) = mc"
    by (simp add: ph_update_coloring_incrementally_def Let_def)
  have b: "b \<in> set mc" using assms c by simp
  then have "mc \<noteq> []" by auto
  then obtain bacs where v: "compute_blue_anticones (k s) ?anticones mc = Some bacs"
    using coloring_loop_valid[OF l] by auto
  have "mc \<in> set (powerset (nodes (G s)))"
    using coloring_loop_member[OF l] \<open>mc \<noteq> []\<close> by auto
  then have "b \<in> set (nodes (G s))" using set_powerset b by blast
  then have "(b, get_anticone (G s) b) \<in> set ?anticones" by auto
  from compute_blue_anticones_valid[OF v this b]
  have "int (length (filter (\<lambda>x. x \<in> set mc) (get_anticone (G s) b))) \<le> k s" .
  moreover have "blue_in_anticone (G s) mc b \<le> length (filter (\<lambda>x. x \<in> set mc) (get_anticone (G s) b))"
    unfolding blue_in_anticone_def by (rule card_inter_filter)
  ultimately show ?thesis using c by simp
qed

lemma k_ph_update_coloring_incrementally [simp]:
  "k (ph_update_coloring_incrementally s gid) = k s"
  by (simp add: ph_update_coloring_incrementally_def Let_def split: prod.splits)

lemma ph_add_bounded:
  assumes "ph_add fuel s b = Inr s'"
  shows "blue_anticones_bounded s' \<and> k s' = k s"
proof -
  let ?s1 = "s\<lparr>G := add_to_graph (G s) b, leaves := update_leaves (leaves s) b\<rparr>"
  let ?s2 = "ph_update_coloring_incrementally ?s1 (hash b)"
  from assms obtain new_order ordered where
    s': "s' = ?s2\<lparr>genesis_gid := (case new_order of [] \<Rightarrow> None | x # xs \<Rightarrow> Some x),
              G := foldl (\<lambda>gr (new_lid, cur_gid). set_attrs gr cur_gid (\<lambda>a. a\<lparr>lid := Some new_lid\<rparr>))
                     (G ?s2) (enumerate 0 new_order)\<rparr>"
    by (auto simp: ph_add_def Let_def ph_update_topological_order_incrementally_def split: sum.splits)
  have e2: "nodes (G ?s2) = nodes (G ?s1) \<and> adj (G ?s2) = adj (G ?s1)
            \<and> pred_adj (G ?s2) = pred_adj (G ?s1)"
    using edges_store_blue_anticones[of "G ?s1"]
    by (simp add: ph_update_coloring_incrementally_def Let_def split: prod.splits)
  have e3: "nodes (G s') = nodes (G ?s1) \<and> adj (G s') = adj (G ?s1) \<and> pred_adj (G s') = pred_adj (G ?s1)"
    unfolding s' using e2 edges_store_lids[of "G ?s2" "enumerate 0 new_order"] by simp
  have an: "get_anticone (G s') x = get_anticone (G ?s1) x" for x
    using e3 by (intro get_anticone_attrs) simp_all
  have col: "coloring s' = coloring ?s2" and ks: "k s' = k s" by (simp_all add: s')
  have "int (blue_in_anticone (G s') (coloring s') x) \<le> k s'" if "x \<in> set (coloring s')" for x
    using ph_update_coloring_bounded[of x ?s1 "hash b"] that
    by (simp add: col ks blue_in_anticone_def an)
  then show ?thesis using ks by (simp add: blue_anticones_bounded_def ph_get_coloring_def)
qed

lemma ph_adds_snoc:
  "ph_adds fuel s (bs @ [b]) = bindE (ph_adds fuel s bs) (\<lambda>s'. ph_add fuel s' b)"
  by (induction bs arbitrary: s) (auto split: sum.splits)

lemma ph_adds_bounded:
  "ph_adds fuel (PHANTOM_init k_arg) bs = Inr s \<Longrightarrow> blue_anticones_bounded s"
proof (cases bs rule: rev_cases)
  case Nil
  assume "ph_adds fuel (PHANTOM_init k_arg) bs = Inr s"
  then show ?thesis using Nil
    by (auto simp: blue_anticones_bounded_def ph_get_coloring_def PHANTOM_init_def)
next
  case (snoc bs' b)
  assume "ph_adds fuel (PHANTOM_init k_arg) bs = Inr s"
  then obtain s1 where "ph_add fuel s1 b = Inr s"
    using snoc by (auto simp: ph_adds_snoc split: sum.splits)
  then show ?thesis using ph_add_bounded by blast
qed

text \<open>
  C2 (as amended). In every state of the brute-force engine reached from the initial
  state by a sequence of adds, every block that is blue under the current coloring has at
  most \<open>k\<close> blue blocks in its anticone (the blocks that are neither the block itself nor
  in its past nor in its future).
\<close>

theorem C2_brute_force_blue_anticones_bounded:
  "ph_adds fuel (PHANTOM_init k_arg) bs = Inr s \<Longrightarrow> ph_is_blue s b \<Longrightarrow>
   int (card (set (get_anticone (G s) b) \<inter> set (ph_get_coloring s))) \<le> k s"
  using ph_adds_bounded[of fuel k_arg bs s]
  by (simp add: blue_anticones_bounded_def blue_in_anticone_def ph_is_blue_def ph_get_coloring_def)

lemma star_run:
  "(case brute_force_star of Inl e \<Rightarrow> False | Inr s \<Rightarrow>
      coloring s = [0, 1, 2] \<and> k s = 1 \<and> get_anticone (G s) 1 = [2, 3])"
  by code_simp

theorem C2_brute_force_blue_anticones_bounded_witness:
  "\<exists>s. ph_adds 50 (PHANTOM_init (Some 1)) star_blocks = Inr s
       \<and> ph_get_coloring s = [0, 1, 2] \<and> ph_is_blue s 1 \<and> get_anticone (G s) 1 = [2, 3]
       \<and> k s = 1
       \<and> int (card (set (get_anticone (G s) 1) \<inter> set (ph_get_coloring s))) \<le> k s"
proof -
  from star_run obtain s where s: "ph_adds 50 (PHANTOM_init (Some 1)) star_blocks = Inr s"
    and c: "coloring s = [0, 1, 2]" and ks: "k s = 1" and a: "get_anticone (G s) 1 = [2, 3]"
    by (auto simp: brute_force_star_def split: sum.splits)
  have b: "ph_is_blue s 1" using c by (simp add: ph_is_blue_def)
  show ?thesis
    using C2_brute_force_blue_anticones_bounded[OF s b] s c ks a b
    by (intro exI[of _ s]) (simp add: ph_get_coloring_def)
qed

theorem C2_greedy_blue_anticone_counterexample:
  "map_sum id k greedy_star = Inr 1 \<and> greedy_star_coloring = Inr ([3, 2, 1, 0], 2)"
  by code_simp

section \<open>CompetingChainGreedyPHANTOM: success, failure and the end of an attack\<close>

text \<open>
  C9. In every state of a CompetingChainGreedyPHANTOM, hence in every reachable one,
  \<open>did_attack_succeed\<close> returns \<open>False\<close> (and changes nothing) whenever \<open>did_attack_fail\<close>
  returns \<open>True\<close>, that is whenever \<open>first_parallel_block_gid\<close> or
  \<open>currently_attacked_block_gid\<close> is \<open>None\<close>; so the two never both return \<open>True\<close>.
\<close>

theorem C9_success_and_failure_exclusive:
  "(did_attack_fail s \<longrightarrow> did_attack_succeed fuel s = Inr (Some False, s))
   \<and> (first_parallel_block_gid s = None \<or> currently_attacked_block_gid s = None
        \<longrightarrow> did_attack_succeed fuel s = Inr (Some False, s))
   \<and> \<not> (did_attack_fail s \<and> (\<exists>s'. did_attack_succeed fuel s = Inr (Some True, s')))"
  by (simp add: did_attack_succeed_def did_attack_fail_def)

theorem C9_success_and_failure_exclusive_witness:
  "did_attack_fail (CompetingChainGreedyPHANTOM_init (Some 4) 1 1)
   \<and> first_parallel_block_gid (CompetingChainGreedyPHANTOM_init (Some 4) 1 1) = None
   \<and> did_attack_succeed 10 (CompetingChainGreedyPHANTOM_init (Some 4) 1 1)
       = Inr (Some False, CompetingChainGreedyPHANTOM_init (Some 4) 1 1)"
  using C9_success_and_failure_exclusive[of "CompetingChainGreedyPHANTOM_init (Some 4) 1 1" 10]
  by (simp add: did_attack_fail_def CompetingChainGreedyPHANTOM_init_def)





end
